theory Spec2Isabelle
  imports Complex_Main "HOL-Library.AList" "HOL-Library.Log_Nat"
begin

section \<open>Scope of the embedding\<close>

text \<open>
  The development embeds the computational part of the statement dashboard:
  the \<^verbatim>\<open>summary\<close> memo, \<^verbatim>\<open>processStatements\<close>, \<^verbatim>\<open>exportToCSV\<close> (component \<^verbatim>\<open>App\<close>) and
  \<^verbatim>\<open>extractTransactions\<close> (the extraction service). The three revisions of \<^verbatim>\<open>App\<close> in the
  sources agree on these functions up to comments, the wording of the default error message
  and the name of the downloaded file; the first revision is the one embedded.

  Conventions of the model.
  \<^item> A JavaScript \<^verbatim>\<open>number\<close> is an IEEE 754 double: a finite value (a rational that the
    format represents), an infinity or \<^verbatim>\<open>NaN\<close>. \<^verbatim>\<open>+\<close>, \<^verbatim>\<open>-\<close>, \<^verbatim>\<open>*\<close> and \<^verbatim>\<open>/\<close> round the exact result
    to the nearest double, ties to even. The two zeros are one value: the code neither
    divides by a zero nor tells them apart in any other way.
  \<^item> The object \<^verbatim>\<open>categoryMap\<close> is the list of its own properties in creation order. A read
    of a key that is not an own property finds what the object inherits from
    \<^verbatim>\<open>Object.prototype\<close>: a function for \<^verbatim>\<open>constructor\<close>, \<^verbatim>\<open>toString\<close> and the other methods, the
    prototype object itself for the accessor \<^verbatim>\<open>__proto__\<close>, and \<^verbatim>\<open>undefined\<close> otherwise.
  \<^item> React state is a record that the functions take and return; every setter takes effect
    at once.
  \<^item> What the outside world supplies is a parameter: the outcome of each call of the
    generative model, each reading of \<^verbatim>\<open>Date.now()\<close>, and the text that JavaScript gives an
    amount when it writes it into a string.
\<close>

section \<open>Numbers\<close>

text \<open>
  The values of type \<^verbatim>\<open>number\<close>. In \<open>Fin r\<close> the rational \<open>r\<close> is meant to be a double; the
  operations below return doubles.
\<close>

datatype number = Fin rat | PInf | NInf | NaN

text \<open>\<open>pow2 k\<close> is \<open>2\<close> to the power \<open>k\<close>, for any integer \<open>k\<close>.\<close>

definition pow2 :: "int \<Rightarrow> rat" where
  "pow2 k = (if 0 \<le> k then 2 ^ nat k else 1 / 2 ^ nat (- k))"

text \<open>
  The binary exponent of a positive rational \<open>y\<close>: the integer \<open>e\<close> with
  \<open>2^e \<le> y < 2^(e+1)\<close> (lemma \<open>ilog2_bounds\<close>).
\<close>

definition ilog2 :: "rat \<Rightarrow> int" where
  "ilog2 y = (if 1 \<le> y then bitlen \<lfloor>y\<rfloor> - 1 else - bitlen (\<lceil>1 / y\<rceil> - 1))"

text \<open>The nearest integer, the even one of the two when \<open>m\<close> lies half way.\<close>

definition round_even :: "rat \<Rightarrow> int" where
  "round_even m =
     (let f = \<lfloor>m\<rfloor>; d = m - of_int f
      in if d < 1 / 2 then f else if 1 / 2 < d then f + 1 else if even f then f else f + 1)"

text \<open>
  Rounding of an exact result to binary64: 53 significant bits, the unit in the last place
  never below \<open>2^(-1074)\<close> (subnormal numbers), and an infinity when the rounded magnitude
  reaches \<open>2^1024\<close>.
\<close>

definition fl :: "rat \<Rightarrow> number" where
  "fl x =
     (if x = 0 then Fin 0
      else
        let q = max (ilog2 \<bar>x\<bar> - 52) (- 1074);
            r = of_int (round_even (x / pow2 q)) * pow2 q
        in if 2 ^ 1024 \<le> \<bar>r\<bar> then (if 0 < x then PInf else NInf) else Fin r)"

text \<open>Unary minus, \<^verbatim>\<open>Math.abs\<close>, and the tests \<^verbatim>\<open>x > 0\<close>, \<^verbatim>\<open>x < 0\<close> and "x is falsy".\<close>

fun js_neg :: "number \<Rightarrow> number" where
  "js_neg (Fin r) = Fin (- r)"
| "js_neg PInf = NInf"
| "js_neg NInf = PInf"
| "js_neg NaN = NaN"

fun Math_abs :: "number \<Rightarrow> number" where
  "Math_abs (Fin r) = Fin \<bar>r\<bar>"
| "Math_abs PInf = PInf"
| "Math_abs NInf = PInf"
| "Math_abs NaN = NaN"

fun is_pos :: "number \<Rightarrow> bool" where
  "is_pos (Fin r) = (0 < r)"
| "is_pos PInf = True"
| "is_pos NInf = False"
| "is_pos NaN = False"

fun is_neg :: "number \<Rightarrow> bool" where
  "is_neg (Fin r) = (r < 0)"
| "is_neg PInf = False"
| "is_neg NInf = True"
| "is_neg NaN = False"

fun falsy :: "number \<Rightarrow> bool" where
  "falsy (Fin r) = (r = 0)"
| "falsy PInf = False"
| "falsy NInf = False"
| "falsy NaN = True"

text \<open>\<^verbatim>\<open>x + y\<close>, \<^verbatim>\<open>x - y\<close>, \<^verbatim>\<open>x * y\<close> and \<^verbatim>\<open>x / y\<close> on numbers.\<close>

fun js_add :: "number \<Rightarrow> number \<Rightarrow> number" where
  "js_add NaN y = NaN"
| "js_add x NaN = NaN"
| "js_add PInf NInf = NaN"
| "js_add NInf PInf = NaN"
| "js_add PInf y = PInf"
| "js_add x PInf = PInf"
| "js_add NInf y = NInf"
| "js_add x NInf = NInf"
| "js_add (Fin a) (Fin b) = fl (a + b)"

definition js_sub :: "number \<Rightarrow> number \<Rightarrow> number" where
  "js_sub x y = js_add x (js_neg y)"

fun js_mul :: "number \<Rightarrow> number \<Rightarrow> number" where
  "js_mul NaN y = NaN"
| "js_mul x NaN = NaN"
| "js_mul (Fin a) (Fin b) = fl (a * b)"
| "js_mul (Fin a) y = (if a = 0 then NaN else if 0 < a then y else js_neg y)"
| "js_mul x (Fin b) = (if b = 0 then NaN else if 0 < b then x else js_neg x)"
| "js_mul x y = (if x = y then PInf else NInf)"

fun js_div :: "number \<Rightarrow> number \<Rightarrow> number" where
  "js_div NaN y = NaN"
| "js_div x NaN = NaN"
| "js_div (Fin a) (Fin b) =
     (if b = 0 then (if a = 0 then NaN else if 0 < a then PInf else NInf) else fl (a / b))"
| "js_div (Fin a) y = Fin 0"
| "js_div x (Fin b) = (if 0 \<le> b then x else js_neg x)"
| "js_div x y = NaN"

text \<open>\<^verbatim>\<open>x >= y\<close> on numbers; a comparison with \<^verbatim>\<open>NaN\<close> is false.\<close>

fun js_ge :: "number \<Rightarrow> number \<Rightarrow> bool" where
  "js_ge NaN y = False"
| "js_ge x NaN = False"
| "js_ge PInf y = True"
| "js_ge x NInf = True"
| "js_ge (Fin a) (Fin b) = (b \<le> a)"
| "js_ge x y = False"

text \<open>
  Two predicates for the proofs. Every finite double is a multiple of \<open>2^(-1074)\<close> (\<open>grid\<close>);
  a bucket that holds a number holds a non-negative double or \<^verbatim>\<open>Infinity\<close> (\<open>good\<close>).
\<close>

definition grid :: "rat \<Rightarrow> bool" where
  "grid r \<longleftrightarrow> of_int \<lfloor>r * pow2 1074\<rfloor> = r * pow2 1074"

definition good :: "number \<Rightarrow> bool" where
  "good v = (case v of Fin r \<Rightarrow> 0 \<le> r \<and> grid r | PInf \<Rightarrow> True | NInf \<Rightarrow> False | NaN \<Rightarrow> False)"

section \<open>Data model\<close>

text \<open>\<^verbatim>\<open>FileData\<close> of types.ts; its field \<^verbatim>\<open>type\<close> is \<open>mime\<close> here.\<close>

record FileData =
  name :: string
  base64 :: string
  mime :: string

text \<open>
  \<^verbatim>\<open>Transaction\<close> of types.ts, in the three stages in which its fields are filled: the record
  the model returns, the record \<^verbatim>\<open>extractTransactions\<close> returns (with \<^verbatim>\<open>id\<close>, here \<open>txn_id\<close>)
  and the record \<^verbatim>\<open>processStatements\<close> stores (with \<^verbatim>\<open>sourceFile\<close>). The response schema does
  not require \<^verbatim>\<open>notes\<close> (here \<open>txn_notes\<close>), so it may be undefined: \<open>None\<close>.
\<close>

record RawTransaction =
  date :: string
  description :: string
  amount :: number
  category :: string
  txn_notes :: "string option"

record ExtractedTransaction = RawTransaction +
  txn_id :: string

record Transaction = ExtractedTransaction +
  sourceFile :: string

datatype ProcessingStatus = IDLE | UPLOADING | ANALYZING | SUCCESS | ERROR

text \<open>The state hooks of \<^verbatim>\<open>App\<close>.\<close>

record AppState =
  files :: "FileData list"
  transactions :: "Transaction list"
  status :: ProcessingStatus
  error :: "string option"
  selectedView :: string
  processedCount :: nat
  currentlyProcessingIdx :: "nat option"

text \<open>
  What a bucket of \<^verbatim>\<open>categoryMap\<close> can hold: a number, or a string that \<^verbatim>\<open>+\<close> has made from
  an inherited member (\<open>Str\<close>). Such a string starts with \<^verbatim>\<open>[object Object]\<close> or with the
  source text of a function, so it is not empty and it does not read as a number; nothing
  else of it matters to the code.
\<close>

datatype jsval = Num number | Str

text \<open>
  An entry of \<^verbatim>\<open>summary.categoryData\<close>; \<^verbatim>\<open>name\<close> and \<^verbatim>\<open>value\<close> are \<open>cat_name\<close> and \<open>cat_value\<close>.
  The interface declares \<^verbatim>\<open>value\<close> a number; at run time it is whatever the bucket holds.
\<close>

record CategorySummary =
  cat_name :: string
  cat_value :: jsval
  percentage :: number
  color :: string

record Summary =
  count :: nat
  income :: number
  expenses :: number
  net :: number
  categoryData :: "CategorySummary list"

definition COLORS :: "string list" where
  "COLORS = [''#4f46e5'', ''#f43f5e'', ''#10b981'', ''#f59e0b'',
             ''#06b6d4'', ''#8b5cf6'', ''#ec4899'', ''#64748b'']"

section \<open>The JavaScript library functions the code calls\<close>

text \<open>
  \<^verbatim>\<open>Array.prototype.sort(cmp)\<close>: the sort is stable; \<open>y\<close> goes before an earlier \<open>x\<close> only when
  \<open>cmp x y\<close> is positive, and a comparator result \<^verbatim>\<open>NaN\<close> counts as \<open>0\<close>. For a consistent
  comparator the result is the one of this insertion sort; for an inconsistent one the
  standard leaves the order to the implementation.
\<close>

fun insert_by :: "('a \<Rightarrow> 'a \<Rightarrow> number) \<Rightarrow> 'a \<Rightarrow> 'a list \<Rightarrow> 'a list" where
  "insert_by cmp x [] = [x]"
| "insert_by cmp x (y # ys) =
     (if is_pos (cmp x y) then y # insert_by cmp x ys else x # y # ys)"

definition Array_sort :: "('a \<Rightarrow> 'a \<Rightarrow> number) \<Rightarrow> 'a list \<Rightarrow> 'a list" where
  "Array_sort cmp xs = foldr (insert_by cmp) xs []"

text \<open>\<^verbatim>\<open>Array.prototype.join(sep)\<close> on an array of strings.\<close>

fun join :: "string \<Rightarrow> string list \<Rightarrow> string" where
  "join sep [] = []"
| "join sep [x] = x"
| "join sep (x # y # ys) = x @ sep @ join sep (y # ys)"

text \<open>The decimal text of a natural number and of an integer (\<^verbatim>\<open>String(n)\<close> below 1e21).\<close>

fun digits :: "nat \<Rightarrow> string" where
  "digits n =
     (if n < 10 then [''0123456789'' ! n]
      else digits (n div 10) @ [''0123456789'' ! (n mod 10)])"

declare digits.simps [simp del]

definition show_int :: "int \<Rightarrow> string" where
  "show_int i = (if i < 0 then ''-'' @ digits (nat (- i)) else digits (nat i))"

definition is_digit :: "char \<Rightarrow> bool" where
  "is_digit c \<longleftrightarrow> c \<in> set ''0123456789''"

definition digit_value :: "char \<Rightarrow> nat" where
  "digit_value c = of_char c - 48"

definition dec_value :: "string \<Rightarrow> nat" where
  "dec_value s = foldl (\<lambda>n c. 10 * n + digit_value c) 0 s"

text \<open>
  A property key is an array index when it is the decimal text, without a leading zero, of
  an integer below \<open>2^32 - 1\<close>. \<^verbatim>\<open>Object.entries\<close> lists the own properties with the array
  indices first, in ascending numeric order, and then the other keys in creation order.
\<close>

definition is_array_index :: "string \<Rightarrow> bool" where
  "is_array_index k \<longleftrightarrow>
     k \<noteq> [] \<and> list_all is_digit k \<and> (k = ''0'' \<or> hd k \<noteq> CHR ''0'') \<and> dec_value k < 4294967295"

definition Object_entries :: "(string \<times> 'v) list \<Rightarrow> (string \<times> 'v) list" where
  "Object_entries obj =
     sort_key (\<lambda>p. dec_value (fst p)) (filter (\<lambda>p. is_array_index (fst p)) obj)
     @ filter (\<lambda>p. \<not> is_array_index (fst p)) obj"

text \<open>\<^verbatim>\<open>s.replace(/"/g, '""')\<close>; the character \<open>0x22\<close> is the double quote.\<close>

definition replace_quotes :: "string \<Rightarrow> string" where
  "replace_quotes s = concat (map (\<lambda>c. if c = CHR 0x22 then [CHR 0x22, CHR 0x22] else [c]) s)"

definition quoted :: "string \<Rightarrow> string" where
  "quoted s = [CHR 0x22] @ s @ [CHR 0x22]"

section \<open>The summary\<close>

definition currentTransactions :: "AppState \<Rightarrow> Transaction list" where
  "currentTransactions s =
     (if selectedView s = ''all'' then transactions s
      else filter (\<lambda>t. sourceFile t = selectedView s) (transactions s))"

text \<open>
  The methods every object inherits from \<^verbatim>\<open>Object.prototype\<close>, and what the read
  \<^verbatim>\<open>categoryMap[k]\<close> finds: an own property, an inherited method, the prototype object (through
  the inherited accessor \<^verbatim>\<open>__proto__\<close>), or nothing.
\<close>

definition inherited_methods :: "string list" where
  "inherited_methods =
     [''constructor'', ''hasOwnProperty'', ''isPrototypeOf'', ''propertyIsEnumerable'',
      ''toLocaleString'', ''toString'', ''valueOf'', ''__defineGetter__'',
      ''__defineSetter__'', ''__lookupGetter__'', ''__lookupSetter__'']"

datatype property = Undefined | Own jsval | Method | Prototype

definition get_property :: "(string \<times> jsval) list \<Rightarrow> string \<Rightarrow> property" where
  "get_property obj k =
     (case map_of obj k of
        Some v \<Rightarrow> Own v
      | None \<Rightarrow>
          if k = ''__proto__'' then Prototype
          else if k \<in> set inherited_methods then Method
          else Undefined)"

text \<open>
  \<^verbatim>\<open>(x || 0) + absAmount\<close>: \<^verbatim>\<open>undefined\<close>, \<open>0\<close> and \<^verbatim>\<open>NaN\<close> are falsy; a function, an object and
  a string of the kind \<open>Str\<close> are truthy, and \<^verbatim>\<open>+\<close> with one of them makes a string.
\<close>

definition or_zero_plus :: "property \<Rightarrow> number \<Rightarrow> jsval" where
  "or_zero_plus x absAmount =
     (case x of
        Undefined \<Rightarrow> Num (js_add (Fin 0) absAmount)
      | Own (Num v) \<Rightarrow> Num (js_add (if falsy v then Fin 0 else v) absAmount)
      | Own Str \<Rightarrow> Str
      | Method \<Rightarrow> Str
      | Prototype \<Rightarrow> Str)"

text \<open>
  The assignment \<^verbatim>\<open>categoryMap[k] = v\<close> of a number or a string: for \<^verbatim>\<open>__proto__\<close> it reaches the
  inherited setter, which ignores a value that is not an object; for any other key it
  sets the own property, a new one going last.
\<close>

definition set_property :: "(string \<times> jsval) list \<Rightarrow> string \<Rightarrow> jsval \<Rightarrow> (string \<times> jsval) list" where
  "set_property obj k v = (if k = ''__proto__'' then obj else AList.update k v obj)"


text \<open>The body of the \<^verbatim>\<open>forEach\<close> that fills \<^verbatim>\<open>categoryMap\<close>.\<close>

definition add_expense :: "(string \<times> jsval) list \<Rightarrow> Transaction \<Rightarrow> (string \<times> jsval) list" where
  "add_expense categoryMap t =
     (if is_neg (amount t) then
        let absAmount = Math_abs (amount t)
        in set_property categoryMap (category t)
             (or_zero_plus (get_property categoryMap (category t)) absAmount)
      else categoryMap)"

definition categoryMap_of :: "Transaction list \<Rightarrow> (string \<times> jsval) list" where
  "categoryMap_of ts = foldl add_expense [] ts"

text \<open>
  \<^verbatim>\<open>(value / totalExpenseAbs) * 100\<close> and \<^verbatim>\<open>b.value - a.value\<close>: a string of the kind \<open>Str\<close>
  converts to \<^verbatim>\<open>NaN\<close>.
\<close>

fun to_number :: "jsval \<Rightarrow> number" where
  "to_number (Num v) = v"
| "to_number Str = NaN"

definition category_entry :: "number \<Rightarrow> nat \<times> string \<times> jsval \<Rightarrow> CategorySummary" where
  "category_entry totalExpenseAbs e =
     (case e of (index, key, val) \<Rightarrow>
        \<lparr>cat_name = key,
         cat_value = val,
         percentage = (if is_pos totalExpenseAbs
                       then js_mul (js_div (to_number val) totalExpenseAbs) (Fin 100) else Fin 0),
         color = COLORS ! (index mod length COLORS)\<rparr>)"

definition summary_of :: "Transaction list \<Rightarrow> Summary" where
  "summary_of currentTxs =
     (let income = foldl (\<lambda>acc t. js_add acc (amount t)) (Fin 0) (filter (\<lambda>t. is_pos (amount t)) currentTxs);
          expenses = foldl (\<lambda>acc t. js_add acc (amount t)) (Fin 0) (filter (\<lambda>t. is_neg (amount t)) currentTxs);
          categoryMap = categoryMap_of currentTxs;
          totalExpenseAbs = Math_abs expenses;
          categoryData =
            Array_sort (\<lambda>a b. js_sub (to_number (cat_value b)) (to_number (cat_value a)))
              (map (category_entry totalExpenseAbs) (enumerate 0 (Object_entries categoryMap)))
      in \<lparr>count = length currentTxs,
          income = income,
          expenses = totalExpenseAbs,
          net = js_add income expenses,
          categoryData = categoryData\<rparr>)"

definition summary :: "AppState \<Rightarrow> Summary" where
  "summary s = summary_of (currentTransactions s)"

section \<open>Extraction and the batch run\<close>

text \<open>
  What a call of the generative model ends in: an exception (whose \<^verbatim>\<open>message\<close> may be
  undefined), or the parsed array \<^verbatim>\<open>parsed.transactions || []\<close>.
\<close>

datatype thrown = Thrown (message: "string option")

datatype outcome = Throws thrown | Parsed "RawTransaction list"

text \<open>
  \<^verbatim>\<open>extractTransactions\<close>: the exception is logged and thrown again; otherwise every record
  gets the id \<^verbatim>\<open>`${Date.now()}-${index}`\<close>. \<open>now index\<close> is the reading of the clock when
  the id of position \<open>index\<close> is made.
\<close>

definition extractTransactions :: "outcome \<Rightarrow> (nat \<Rightarrow> int) \<Rightarrow> thrown + ExtractedTransaction list" where
  "extractTransactions out now =
     (case out of
        Throws e \<Rightarrow> Inl e
      | Parsed ts \<Rightarrow>
          Inr (map (\<lambda>(index, t).
                 \<lparr>date = date t, description = description t, amount = amount t,
                  category = category t, txn_notes = txn_notes t,
                  txn_id = show_int (now index) @ ''-'' @ digits index\<rparr>)
               (enumerate 0 ts)))"

text \<open>\<^verbatim>\<open>{ ...t, sourceFile: files[i].name }\<close>\<close>

definition tag :: "string \<Rightarrow> ExtractedTransaction \<Rightarrow> Transaction" where
  "tag n t =
     \<lparr>date = date t, description = description t, amount = amount t,
      category = category t, txn_notes = txn_notes t, txn_id = txn_id t, sourceFile = n\<rparr>"

text \<open>
  The \<^verbatim>\<open>for\<close> loop of \<^verbatim>\<open>processStatements\<close> from index \<open>i\<close> on, over the files still to do.
  \<open>respond i f\<close> is the outcome of the model on the \<open>i\<close>-th call, made with file \<open>f\<close>;
  \<open>now i\<close> are the clock readings during that call. The result is the exception
  caught or the array \<^verbatim>\<open>allExtractedTransactions\<close>, and the state reached.
\<close>

fun for_files ::
  "(nat \<Rightarrow> FileData \<Rightarrow> outcome) \<Rightarrow> (nat \<Rightarrow> nat \<Rightarrow> int) \<Rightarrow> FileData list \<Rightarrow> nat \<Rightarrow>
   Transaction list \<Rightarrow> AppState \<Rightarrow> (thrown + Transaction list) \<times> AppState" where
  "for_files respond now [] i allExtracted s = (Inr allExtracted, s)"
| "for_files respond now (f # fs) i allExtracted s =
     (let s1 = s\<lparr>currentlyProcessingIdx := Some i\<rparr>
      in case extractTransactions (respond i f) (now i) of
           Inl err \<Rightarrow> (Inl err, s1)
         | Inr result \<Rightarrow>
             let taggedResults = map (tag (name f)) result
             in for_files respond now fs (i + 1) (allExtracted @ taggedResults)
                  (s1\<lparr>processedCount := i + 1\<rparr>))"

text \<open>\<^verbatim>\<open>err.message || "Failed to extract data. ..."\<close>\<close>

definition error_text :: "thrown \<Rightarrow> string" where
  "error_text err =
     (case message err of
        None \<Rightarrow> ''Failed to extract data. Please ensure the files are valid PDFs or images.''
      | Some m \<Rightarrow>
          if m = [] then ''Failed to extract data. Please ensure the files are valid PDFs or images.''
          else m)"

definition processStatements ::
  "(nat \<Rightarrow> FileData \<Rightarrow> outcome) \<Rightarrow> (nat \<Rightarrow> nat \<Rightarrow> int) \<Rightarrow> AppState \<Rightarrow> AppState" where
  "processStatements respond now s =
     (if length (files s) = 0 then s
      else
        let s0 = s\<lparr>status := ANALYZING, error := None, processedCount := 0, transactions := []\<rparr>
        in case for_files respond now (files s) 0 [] s0 of
             (Inr allExtracted, s1) \<Rightarrow>
               s1\<lparr>transactions := allExtracted, status := SUCCESS,
                  currentlyProcessingIdx := None, selectedView := ''all''\<rparr>
           | (Inl err, s1) \<Rightarrow>
               s1\<lparr>error := Some (error_text err), status := ERROR,
                  currentlyProcessingIdx := None\<rparr>)"

text \<open>The state in which \<^verbatim>\<open>App\<close> starts (the arguments of its \<^verbatim>\<open>useState\<close> calls).\<close>

definition initial_state :: AppState where
  "initial_state =
     \<lparr>files = [], transactions = [], status = IDLE, error = None, selectedView = ''all'',
      processedCount = 0, currentlyProcessingIdx = None\<rparr>"

text \<open>
  The positions of the consolidated list of \<open>n\<close> files, in order: the index of the file and
  the index of the record in the result of the file, \<open>len k\<close> being the size of that result.
\<close>

definition positions :: "(nat \<Rightarrow> nat) \<Rightarrow> nat \<Rightarrow> (nat \<times> nat) list" where
  "positions len n = concat (map (\<lambda>k. map (Pair k) [0..<len k]) [0..<n])"

section \<open>CSV export\<close>

text \<open>
  The six cells of a row, before \<^verbatim>\<open>join(',')\<close>. \<open>num_text\<close> is the text JavaScript gives a
  number.
\<close>

definition csv_cells :: "(number \<Rightarrow> string) \<Rightarrow> Transaction \<Rightarrow> string list" where
  "csv_cells num_text t =
     [date t,
      quoted (replace_quotes (description t)),
      num_text (amount t),
      category t,
      quoted (replace_quotes (case txn_notes t of None \<Rightarrow> [] | Some n \<Rightarrow> n)),
      quoted (sourceFile t)]"

definition csv_header :: "string list" where
  "csv_header = [''Date'', ''Description'', ''Amount'', ''Category'', ''Notes'', ''Source'']"

text \<open>
  \<^verbatim>\<open>exportToCSV\<close>: nothing is exported when the current list is empty; otherwise the content
  of the file is the header and the rows, joined by line feeds (\<open>0x0A\<close>).
\<close>

definition exportToCSV :: "(number \<Rightarrow> string) \<Rightarrow> AppState \<Rightarrow> string option" where
  "exportToCSV num_text s =
     (if length (currentTransactions s) = 0 then None
      else Some (join [CHR 0x0A]
                  (join '','' csv_header
                   # map (\<lambda>t. join '','' (csv_cells num_text t)) (currentTransactions s))))"

section \<open>Inputs of the examples\<close>

definition example_tx :: "string \<Rightarrow> number \<Rightarrow> Transaction" where
  "example_tx c a =
     \<lparr>date = ''2024-01-05'', description = ''Coffee'', amount = a, category = c,
      txn_notes = Some [], txn_id = ''1700000000000-0'', sourceFile = ''a.pdf''\<rparr>"

definition scenario :: "Transaction list" where
  "scenario = [example_tx ''Salary'' (Fin 100), example_tx ''Food'' (Fin (- 40)),
               example_tx ''Food'' (Fin (- 10)), example_tx ''Travel'' (Fin (- 20))]"

definition two_expenses :: "Transaction list" where
  "two_expenses = [example_tx ''A'' (Fin (- 10)), example_tx ''B'' (Fin (- 20))]"

definition example_file :: "string \<Rightarrow> FileData" where
  "example_file n = \<lparr>name = n, base64 = ''JVBERi0='', mime = ''application/pdf''\<rparr>"

definition example_raw :: "string \<Rightarrow> RawTransaction" where
  "example_raw d =
     \<lparr>date = ''2024-01-05'', description = d, amount = Fin (- 9 / 2), category = ''Dining'',
      txn_notes = None\<rparr>"

text \<open>Two files: the first yields two records, the second three.\<close>

definition two_files :: AppState where
  "two_files = initial_state\<lparr>files := [example_file ''A.pdf'', example_file ''B.pdf'']\<rparr>"

definition respond_2_3 :: "nat \<Rightarrow> FileData \<Rightarrow> outcome" where
  "respond_2_3 k f =
     (if name f = ''A.pdf'' then Parsed [example_raw ''a1'', example_raw ''a2'']
      else Parsed [example_raw ''b1'', example_raw ''b2'', example_raw ''b3''])"

text \<open>A clock that advances by a second from one call to the next, and one that stands still.\<close>

definition ticking :: "nat \<Rightarrow> nat \<Rightarrow> int" where
  "ticking k i = 1700000000000 + 1000 * int k"

definition standing :: "nat \<Rightarrow> nat \<Rightarrow> int" where
  "standing k i = 1700000000000"

text \<open>Three files, the second of which the model fails on.\<close>

definition three_files :: AppState where
  "three_files =
     initial_state\<lparr>files := [example_file ''A.pdf'', example_file ''B.pdf'', example_file ''C.pdf'']\<rparr>"

definition respond_B_fails :: "nat \<Rightarrow> FileData \<Rightarrow> outcome" where
  "respond_B_fails k f =
     (if name f = ''B.pdf'' then Throws (Thrown (Some ''quota exceeded''))
      else Parsed [example_raw ''x''])"

text \<open>The transaction of the CSV scenario, one whose category and file name contain quotes, and
  a state that shows a given list.\<close>

definition coffee :: Transaction where
  \<open>coffee =
     \<lparr>date = ''2024-01-05'', description = ''Coffee "Shop"'', amount = Fin (- 9 / 2),
      category = ''Dining'', txn_notes = Some [], txn_id = ''1700000000000-0'',
      sourceFile = ''a.pdf''\<rparr>\<close>

definition takeaway :: Transaction where
  \<open>takeaway =
     \<lparr>date = ''2024-01-05'', description = ''Coffee "Shop"'', amount = Fin (- 9 / 2),
      category = ''Food "out"'', txn_notes = None, txn_id = ''1700000000000-1'',
      sourceFile = ''scan "1".pdf''\<rparr>\<close>

definition showing :: "Transaction list \<Rightarrow> AppState" where
  "showing ts = initial_state\<lparr>transactions := ts, status := SUCCESS\<rparr>"

text \<open>
  Amounts at which a sum is rounded (\<open>9007199254740992\<close> is \<open>2^53\<close>), three equal expenses, and
  two category labels that name members of \<^verbatim>\<open>Object.prototype\<close>.
\<close>

definition big_amounts :: "Transaction list" where
  "big_amounts = [example_tx ''Salary'' (Fin 9007199254740992), example_tx ''Salary'' (Fin 1),
                  example_tx ''Rent'' (Fin (- 9007199254740992)), example_tx ''Food'' (Fin (- 1)),
                  example_tx ''Food'' (Fin (- 1))]"



definition constructor_label :: "Transaction list" where
  "constructor_label = [example_tx ''constructor'' (Fin (- 10)), example_tx ''Food'' (Fin (- 30))]"

definition proto_label :: "Transaction list" where
  "proto_label = [example_tx ''__proto__'' (Fin (- 10)), example_tx ''Food'' (Fin (- 30))]"

section \<open>Rounding to a double\<close>

lemma pow2_powi: "pow2 k = 2 powi k"
  by (simp add: pow2_def power_int_def inverse_eq_divide power_one_over)

lemma pow2_pos: "0 < pow2 k"
  by (simp add: pow2_def)

lemma pow2_add: "pow2 (a + b) = pow2 a * pow2 b"
  by (simp add: pow2_powi power_int_add)

lemma pow2_mono: "a \<le> b \<Longrightarrow> pow2 a \<le> pow2 b"
  by (simp add: pow2_powi power_int_increasing)

lemma ilog2_bounds:
  assumes "0 < y"
  shows "pow2 (ilog2 y) \<le> y \<and> y < pow2 (ilog2 y + 1)"
proof (cases "1 \<le> y")
  case True
  let ?n = "\<lfloor>y\<rfloor>"
  from True have n: "0 < ?n" by simp
  from bitlen_bounds [OF n] have b: "2 ^ nat (bitlen ?n - 1) \<le> ?n" "?n < 2 ^ nat (bitlen ?n)" by simp_all
  have bl: "1 \<le> bitlen ?n" using n by (simp add: bitlen_alt_def)
  have "(2::rat) ^ nat (bitlen ?n - 1) \<le> of_int ?n"
    using b(1) by (metis of_int_le_iff of_int_numeral of_int_power)
  also have "\<dots> \<le> y" by simp
  finally have lo: "pow2 (ilog2 y) \<le> y" using True bl by (simp add: ilog2_def pow2_def)
  have "?n + 1 \<le> 2 ^ nat (bitlen ?n)" using b(2) by simp
  then have "of_int (?n + 1) \<le> (2::rat) ^ nat (bitlen ?n)"
    by (metis of_int_le_iff of_int_numeral of_int_power)
  moreover have "y < of_int (?n + 1)" by linarith
  ultimately have "y < 2 ^ nat (bitlen ?n)" by simp
  then have hi: "y < pow2 (ilog2 y + 1)" using True bl by (simp add: ilog2_def pow2_def)
  from lo hi show ?thesis ..
next
  case False
  let ?z = "1 / y"
  let ?c = "\<lceil>?z\<rceil>"
  from False assms have z: "1 < ?z" by simp
  then have c: "2 \<le> ?c" by linarith
  let ?k = "bitlen (?c - 1)"
  from c have pos: "0 < ?c - 1" by simp
  from bitlen_bounds [OF pos] have b: "2 ^ nat (?k - 1) \<le> ?c - 1" "?c - 1 < 2 ^ nat ?k" by simp_all
  have k: "1 \<le> ?k" using pos by (simp add: bitlen_alt_def)
  have "?c \<le> 2 ^ nat ?k" using b(2) by simp
  then have "of_int ?c \<le> (2::rat) ^ nat ?k"
    by (metis of_int_le_iff of_int_numeral of_int_power)
  moreover have "?z \<le> of_int ?c" by (rule le_of_int_ceiling)
  ultimately have "?z \<le> 2 ^ nat ?k" by (rule order_trans [rotated])
  then have "1 / 2 ^ nat ?k \<le> y" using assms
    by (simp add: field_simps)
  then have lo: "pow2 (ilog2 y) \<le> y" using False k by (simp add: ilog2_def pow2_def)
  have "(2::rat) ^ nat (?k - 1) \<le> of_int (?c - 1)"
    using b(1) by (metis of_int_le_iff of_int_numeral of_int_power)
  moreover have "of_int (?c - 1) < ?z" by linarith
  ultimately have lt: "2 ^ nat (?k - 1) < ?z" by simp
  have hi: "y < pow2 (ilog2 y + 1)"
  proof (cases "?k = 1")
    case True
    with False show ?thesis by (simp add: ilog2_def pow2_def)
  next
    case k1: False
    with k have "1 < ?k" by simp
    moreover from lt assms have "y < 1 / 2 ^ nat (?k - 1)" by (simp add: field_simps)
    ultimately show ?thesis using False by (simp add: ilog2_def pow2_def)
  qed
  from lo hi show ?thesis ..
qed

lemma round_even_error: "\<bar>of_int (round_even m) - m\<bar> \<le> 1 / 2"
  unfolding round_even_def Let_def by (auto simp: abs_if) linarith+

lemma round_even_int: "round_even (of_int n) = n"
  by (simp add: round_even_def)

lemma pow2_less_iff: "pow2 a < pow2 b \<longleftrightarrow> a < b"
  unfolding pow2_powi
  by (smt (verit, ccfv_threshold) one_less_numeral_iff
    order_less_imp_not_less power_int_strict_increasing
    semiring_norm(76))

lemma ilog2_eqI:
  assumes "pow2 e \<le> y" and "y < pow2 (e + 1)"
  shows "ilog2 y = e"
proof -
  from assms have pos: "0 < y" using pow2_pos [of e] by linarith
  note b = ilog2_bounds [OF pos]
  from b assms have "pow2 e < pow2 (ilog2 y + 1)" by linarith
  then have 1: "e \<le> ilog2 y" by (simp add: pow2_less_iff)
  from b assms have "pow2 (ilog2 y) < pow2 (e + 1)" by linarith
  then have 2: "ilog2 y \<le> e" by (simp add: pow2_less_iff)
  from 1 2 show ?thesis by simp
qed

lemma fl_eval:
  assumes "x \<noteq> 0" and "pow2 e \<le> \<bar>x\<bar>" and "\<bar>x\<bar> < pow2 (e + 1)"
    and "q = max (e - 52) (- 1074)" and "n = round_even (x / pow2 q)"
    and "\<bar>of_int n * pow2 q\<bar> < 2 ^ 1024"
  shows "fl x = Fin (of_int n * pow2 q)"
proof -
  have "ilog2 \<bar>x\<bar> = e" using assms(2,3) by (rule ilog2_eqI)
  with assms show ?thesis by (simp add: fl_def Let_def)
qed

lemma fl_exact:
  assumes "x \<noteq> 0" and "pow2 e \<le> \<bar>x\<bar>" and "\<bar>x\<bar> < pow2 (e + 1)"
    and "x = of_int k * pow2 (max (e - 52) (- 1074))" and "\<bar>x\<bar> < 2 ^ 1024"
  shows "fl x = Fin x"
proof -
  let ?q = "max (e - 52) (- 1074)"
  have "x / pow2 ?q = of_int k" using assms(4) pow2_pos [of ?q] by simp
  then have "round_even (x / pow2 ?q) = k" by (simp add: round_even_int)
  then have "fl x = Fin (of_int k * pow2 ?q)"
    using assms by (intro fl_eval [where e = e]) simp_all
  with assms(4) show ?thesis by simp
qed

lemma of_int_half_twice:
  assumes "\<bar>of_int n :: rat\<bar> = 2 ^ 53" shows "(of_int n :: rat) = of_int (n div 2) * 2"
proof -
  from assms have "(of_int \<bar>n\<bar> :: rat) = of_int (2 ^ 53)" by simp
  then have "\<bar>n\<bar> = 2 ^ 53" by (simp only: of_int_eq_iff)
  then have "n = 2 ^ 53 \<or> n = - (2 ^ 53)" by (simp add: abs_if split: if_splits)
  then have "n = (n div 2) * 2" by auto
  then have "(of_int n :: rat) = of_int ((n div 2) * 2)" by simp
  then show ?thesis by simp
qed

lemma pow2_inverse: "pow2 a * pow2 (- a) = 1"
  by (simp flip: pow2_add add: pow2_def)

lemma fl_int:
  assumes "\<bar>n\<bar> \<le> 2 ^ 53"
  shows "fl (of_int n) = Fin (of_int n)"
proof (cases "n = 0")
  case True
  then show ?thesis by (simp add: fl_def)
next
  case False
  let ?x = "of_int n :: rat"
  let ?e = "ilog2 \<bar>?x\<bar>"
  from False have pos: "0 < \<bar>?x\<bar>" by simp
  note b = ilog2_bounds [OF pos]
  from False have one: "1 \<le> \<bar>?x\<bar>" by simp
  have le: "\<bar>?x\<bar> \<le> 2 ^ 53"
    using assms by simp
  have big: "\<bar>?x\<bar> < 2 ^ 1024" using le by (rule order_le_less_trans) simp
  from b one have "pow2 0 < pow2 (?e + 1)" by (simp add: pow2_def)
  then have e0: "0 \<le> ?e" by (simp add: pow2_less_iff)
  from b le have "pow2 ?e < pow2 54" by (simp add: pow2_def)
  then have e53: "?e \<le> 53" by (simp add: pow2_less_iff)
  show ?thesis
  proof (cases "?e = 53")
    case True
    with b le have "\<bar>?x\<bar> = 2 ^ 53" by (simp add: pow2_def)
    then have "?x = of_int (n div 2) * 2" by (rule of_int_half_twice)
    then have eq: "?x = of_int (n div 2) * pow2 (max (53 - 52) (- 1074))" by (simp add: pow2_def)
    show ?thesis
    proof (rule fl_exact [where e = 53 and k = "n div 2"])
      show "?x \<noteq> 0" using False by simp
      show "pow2 53 \<le> \<bar>?x\<bar>" using b True by simp
      show "\<bar>?x\<bar> < pow2 (53 + 1)" using b True by simp
      show "?x = of_int (n div 2) * pow2 (max (53 - 52) (- 1074))" by (rule eq)
      show "\<bar>?x\<bar> < 2 ^ 1024" by (rule big)
    qed
  next
    case F: False
    with e53 have e52: "?e \<le> 52" by simp
    then have q: "max (?e - 52) (- 1074) = ?e - 52" using e0 by simp
    have "pow2 (52 - ?e) * pow2 (?e - 52) = 1"
      using pow2_inverse [of "52 - ?e"] by simp
    moreover have "pow2 (52 - ?e) = of_int (2 ^ nat (52 - ?e))"
      using e52 by (simp add: pow2_def)
    ultimately have "?x = of_int (n * 2 ^ nat (52 - ?e)) * pow2 (?e - 52)"
      by (simp add: mult.assoc)
    then have eq: "?x = of_int (n * 2 ^ nat (52 - ?e)) * pow2 (max (?e - 52) (- 1074))"
      by (simp only: q)
    show ?thesis
    proof (rule fl_exact [where e = ?e and k = "n * 2 ^ nat (52 - ?e)"])
      show "?x \<noteq> 0" using False by simp
      show "pow2 ?e \<le> \<bar>?x\<bar>" using b by simp
      show "\<bar>?x\<bar> < pow2 (?e + 1)" using b by simp
      show "?x = of_int (n * 2 ^ nat (52 - ?e)) * pow2 (max (?e - 52) (- 1074))" by (rule eq)
      show "\<bar>?x\<bar> < 2 ^ 1024" by (rule big)
    qed
  qed
qed


lemma gridI:
  assumes "r = of_int n * pow2 (- 1074)"
  shows "grid r"
proof -
  have "pow2 (- 1074) * pow2 1074 = 1"
    using pow2_inverse [of "- 1074"] by simp
  with assms have "r * pow2 1074 = of_int n" by (simp add: mult.assoc)
  then show ?thesis by (simp only: grid_def floor_of_int)
qed

lemma gridE:
  assumes "grid r"
  obtains n where "r = of_int n * pow2 (- 1074)"
proof
  have "pow2 1074 * pow2 (- 1074) = 1" by (rule pow2_inverse)
  then have "r = (r * pow2 1074) * pow2 (- 1074)" by (simp add: mult.assoc)
  with assms show "r = of_int \<lfloor>r * pow2 1074\<rfloor> * pow2 (- 1074)"
    by (simp only: grid_def)
qed

lemma round_even_nonneg: "0 \<le> m \<Longrightarrow> 0 \<le> round_even m"
  using round_even_error [of m] by linarith

lemma round_even_ge1: "1 \<le> m \<Longrightarrow> 1 \<le> round_even m"
  using round_even_error [of m] by linarith

lemma round_even_nonpos: "m \<le> 0 \<Longrightarrow> round_even m \<le> 0"
  using round_even_error [of m] by linarith

lemma fl_zero: "fl 0 = Fin 0"
  by (simp add: fl_def)

lemma fl_not_NaN: "fl x \<noteq> NaN"
  by (simp add: fl_def Let_def)

lemma fl_grid:
  assumes "fl x = Fin r"
  shows "grid r"
proof (cases "x = 0")
  case True
  with assms have "r = of_int 0 * pow2 (- 1074)" by (simp add: fl_def)
  then show ?thesis by (rule gridI)
next
  case False
  let ?q = "max (ilog2 \<bar>x\<bar> - 52) (- 1074)"
  let ?n = "round_even (x / pow2 ?q)"
  from assms False have r: "r = of_int ?n * pow2 ?q"
    by (simp add: fl_def Let_def split: if_splits)
  have "pow2 ?q = pow2 (?q + 1074) * pow2 (- 1074)"
    by (simp flip: pow2_add)
  moreover have "pow2 (?q + 1074) = of_int (2 ^ nat (?q + 1074))"
    by (simp add: pow2_def)
  ultimately have "r = of_int (?n * 2 ^ nat (?q + 1074)) * pow2 (- 1074)"
    using r by (simp add: mult.assoc)
  then show ?thesis by (rule gridI)
qed

lemma fl_nonneg:
  assumes "0 \<le> x"
  shows "fl x = PInf \<or> (\<exists>r. fl x = Fin r \<and> 0 \<le> r)"
proof (cases "x = 0")
  case True
  then show ?thesis by (simp add: fl_def)
next
  case False
  let ?q = "max (ilog2 \<bar>x\<bar> - 52) (- 1074)"
  have "0 \<le> x / pow2 ?q" using assms pow2_pos [of ?q] by simp
  then have "0 \<le> round_even (x / pow2 ?q)" by (rule round_even_nonneg)
  then have "0 \<le> of_int (round_even (x / pow2 ?q)) * pow2 ?q"
    using pow2_pos [of ?q] by simp
  with False assms show ?thesis by (simp add: fl_def Let_def)
qed

lemma fl_nonpos:
  assumes "x \<le> 0"
  shows "\<not> is_pos (fl x)"
proof (cases "x = 0")
  case True
  then show ?thesis by (simp add: fl_def)
next
  case False
  let ?q = "max (ilog2 \<bar>x\<bar> - 52) (- 1074)"
  have "x / pow2 ?q \<le> 0" using assms pow2_pos [of ?q] by (simp add: divide_le_0_iff)
  then have "round_even (x / pow2 ?q) \<le> 0" by (rule round_even_nonpos)
  then have "of_int (round_even (x / pow2 ?q)) * pow2 ?q \<le> 0"
    using pow2_pos [of ?q] by (simp add: mult_le_0_iff)
  with False assms show ?thesis by (simp add: fl_def Let_def)
qed

lemma fl_pos:
  assumes "pow2 (- 1074) \<le> x"
  shows "is_pos (fl x)"
proof -
  from assms have pos: "0 < x" using pow2_pos [of "- 1074"] by linarith
  let ?e = "ilog2 \<bar>x\<bar>"
  let ?q = "max (?e - 52) (- 1074)"
  from pos have b: "pow2 ?e \<le> x" using ilog2_bounds [of "\<bar>x\<bar>"] by simp
  have "pow2 ?q \<le> x"
  proof (cases "?e - 52 \<le> - 1074")
    case True
    then show ?thesis using assms by (simp add: max_def)
  next
    case False
    then have "?q = ?e - 52" by simp
    moreover have "pow2 (?e - 52) \<le> pow2 ?e" by (rule pow2_mono) simp
    ultimately show ?thesis using b by simp
  qed
  then have "1 \<le> x / pow2 ?q" using pow2_pos [of ?q] by simp
  then have "1 \<le> round_even (x / pow2 ?q)" by (rule round_even_ge1)
  then have "0 < of_int (round_even (x / pow2 ?q)) * pow2 ?q"
    using pow2_pos [of ?q] by simp
  with pos show ?thesis by (simp add: fl_def Let_def)
qed

lemma grid_diff:
  assumes "grid a" and "grid b" and "a < b"
  shows "pow2 (- 1074) \<le> b - a"
proof -
  from assms(1) obtain m where a: "a = of_int m * pow2 (- 1074)" by (rule gridE)
  from assms(2) obtain n where b: "b = of_int n * pow2 (- 1074)" by (rule gridE)
  from assms(3) a b have "m < n" using pow2_pos [of "- 1074"] by simp
  then have "1 \<le> n - m" by simp
  then have "(1::rat) \<le> of_int (n - m)" by (simp only: of_int_1_le_iff)
  then have "1 * pow2 (- 1074) \<le> of_int (n - m) * pow2 (- 1074)"
    using pow2_pos [of "- 1074"] by (intro mult_right_mono) simp_all
  with a b show ?thesis by (simp add: algebra_simps)
qed

lemma fl_sub_pos_iff:
  assumes "grid a" and "grid b"
  shows "is_pos (fl (b - a)) \<longleftrightarrow> a < b"
proof (cases "a < b")
  case True
  with assms have "pow2 (- 1074) \<le> b - a" by (rule grid_diff)
  then have "is_pos (fl (b - a))" by (rule fl_pos)
  with True show ?thesis by simp
next
  case False
  then have "b - a \<le> 0" by simp
  then have "\<not> is_pos (fl (b - a))" by (rule fl_nonpos)
  with False show ?thesis by simp
qed

section \<open>The sort\<close>

lemma insert_by_set: "set (insert_by cmp x xs) = insert x (set xs)"
  by (induction xs) auto

lemma Array_sort_Cons: "Array_sort cmp (x # xs) = insert_by cmp x (Array_sort cmp xs)"
  by (simp add: Array_sort_def)

lemma Array_sort_Nil: "Array_sort cmp [] = []"
  by (simp add: Array_sort_def)



lemma set_Array_sort: "set (Array_sort cmp xs) = set xs"
  by (induction xs) (simp_all add: Array_sort_Nil Array_sort_Cons insert_by_set)

lemma length_insert_by: "length (insert_by cmp x xs) = Suc (length xs)"
  by (induction xs) auto

lemma length_Array_sort: "length (Array_sort cmp xs) = length xs"
  by (induction xs) (simp_all add: Array_sort_Nil Array_sort_Cons length_insert_by)

lemma distinct_insert_by:
  "distinct (map f (insert_by cmp x xs)) \<longleftrightarrow> f x \<notin> f ` set xs \<and> distinct (map f xs)"
  by (induction xs) (auto simp: insert_by_set)

lemma distinct_Array_sort: "distinct (map f (Array_sort cmp xs)) \<longleftrightarrow> distinct (map f xs)"
  by (induction xs) (simp_all add: Array_sort_Nil Array_sort_Cons distinct_insert_by set_Array_sort)

lemma js_ge_trans: "js_ge a b \<Longrightarrow> js_ge b c \<Longrightarrow> js_ge a c"
  by (cases a; cases b; cases c) simp_all

lemma js_sub_sign:
  assumes "good a" and "good b"
  shows "is_pos (js_sub b a) \<longleftrightarrow> \<not> js_ge a b"
proof (cases a)
  case a: (Fin x)
  show ?thesis
  proof (cases b)
    case b: (Fin y)
    from assms a b have "grid x" "grid y" by (simp_all add: good_def)
    then have "is_pos (fl (y - x)) \<longleftrightarrow> x < y" by (rule fl_sub_pos_iff)
    with a b show ?thesis by (simp add: js_sub_def not_le)
  qed (use assms a in \<open>simp_all add: js_sub_def good_def\<close>)
qed (use assms in \<open>cases b; simp add: js_sub_def good_def\<close>)+

lemma sorted_insert_by_desc:
  assumes "sorted_wrt (\<lambda>a b. js_ge (v a) (v b)) xs"
    and "good (v x)" and "\<forall>y \<in> set xs. good (v y)"
  shows "sorted_wrt (\<lambda>a b. js_ge (v a) (v b)) (insert_by (\<lambda>a b. js_sub (v b) (v a)) x xs)"
  using assms
proof (induction xs)
  case Nil
  then show ?case by simp
next
  case (Cons y ys)
  show ?case
  proof (cases "is_pos (js_sub (v y) (v x))")
    case True
    then have "\<not> js_ge (v x) (v y)" using Cons.prems by (simp add: js_sub_sign)
    then have "js_ge (v y) (v x)" using Cons.prems
      by (cases "v x"; cases "v y") (simp_all add: good_def)
    with True Cons show ?thesis by (auto simp: insert_by_set)
  next
    case False
    then have xy: "js_ge (v x) (v y)" using Cons.prems by (simp add: js_sub_sign)
    have "js_ge (v x) (v z)" if "z \<in> set ys" for z
    proof -
      from Cons.prems(1) that have "js_ge (v y) (v z)" by simp
      with xy show ?thesis by (rule js_ge_trans)
    qed
    with False xy Cons.prems show ?thesis by simp
  qed
qed

lemma sorted_Array_sort_desc:
  assumes "\<forall>y \<in> set xs. good (v y)"
  shows "sorted_wrt (\<lambda>a b. js_ge (v a) (v b)) (Array_sort (\<lambda>a b. js_sub (v b) (v a)) xs)"
  using assms
  by (induction xs) (simp_all add: Array_sort_Nil Array_sort_Cons sorted_insert_by_desc set_Array_sort)

section \<open>The grouping dictionary\<close>

lemma set_property_keys:
  "map fst (set_property m k v) =
     (if k \<noteq> ''__proto__'' \<and> k \<notin> set (map fst m) then map fst m @ [k] else map fst m)"
  by (simp add: set_property_def update_keys)

lemma keys_add_expense_order:
  "map fst (add_expense m t) =
     (if is_neg (amount t) \<and> category t \<noteq> ''__proto__'' \<and> category t \<notin> set (map fst m)
      then map fst m @ [category t] else map fst m)"
  by (simp add: add_expense_def Let_def set_property_keys)

lemma categoryMap_of_snoc: "categoryMap_of (ts @ [t]) = add_expense (categoryMap_of ts) t"
  by (simp add: categoryMap_of_def)

lemma categoryMap_of_Nil: "categoryMap_of [] = []"
  by (simp add: categoryMap_of_def)

lemma first_occurrences_snoc:
  "rev (remdups (rev (xs @ [x]))) =
     (if x \<in> set xs then rev (remdups (rev xs)) else rev (remdups (rev xs)) @ [x])"
  by simp

lemma set_first_occurrences: "set (rev (remdups (rev xs))) = set xs"
  by simp

lemma keys_categoryMap_of_order:
  "map fst (categoryMap_of ts) =
     rev (remdups (rev (map category
       (filter (\<lambda>t. is_neg (amount t) \<and> category t \<noteq> ''__proto__'') ts))))"
proof (induction ts rule: rev_induct)
  case Nil
  then show ?case by (simp add: categoryMap_of_Nil)
next
  case (snoc t ts)
  let ?P = "\<lambda>t. is_neg (amount t) \<and> category t \<noteq> ''__proto__''"
  let ?cs = "map category (filter ?P ts)"
  have keys: "set (map fst (categoryMap_of ts)) = set ?cs"
    by (simp only: snoc set_first_occurrences)
  show ?case
  proof (cases "?P t")
    case False
    then have "map fst (categoryMap_of (ts @ [t])) = map fst (categoryMap_of ts)"
      by (auto simp: categoryMap_of_snoc keys_add_expense_order)
    with False snoc show ?thesis by simp
  next
    case True
    then have "map category (filter ?P (ts @ [t])) = ?cs @ [category t]" by simp
    then have "rev (remdups (rev (map category (filter ?P (ts @ [t])))))
               = (if category t \<in> set ?cs then rev (remdups (rev ?cs))
                  else rev (remdups (rev ?cs)) @ [category t])"
      by (simp only: first_occurrences_snoc)
    moreover have "map fst (categoryMap_of (ts @ [t]))
               = (if category t \<in> set ?cs then map fst (categoryMap_of ts)
                  else map fst (categoryMap_of ts) @ [category t])"
      using True by (simp only: categoryMap_of_snoc keys_add_expense_order keys) simp
    ultimately show ?thesis by (simp only: snoc)
  qed
qed

lemma keys_categoryMap_of:
  "fst ` set (categoryMap_of ts)
   = category ` {t \<in> set ts. is_neg (amount t) \<and> category t \<noteq> ''__proto__''}"
proof -
  have "fst ` set (categoryMap_of ts) = set (map fst (categoryMap_of ts))" by simp
  also have "\<dots> = set (map category
       (filter (\<lambda>t. is_neg (amount t) \<and> category t \<noteq> ''__proto__'') ts))"
    by (simp only: keys_categoryMap_of_order set_first_occurrences)
  also have "\<dots> = category ` {t \<in> set ts. is_neg (amount t) \<and> category t \<noteq> ''__proto__''}"
    by simp
  finally show ?thesis .
qed

lemma distinct_categoryMap_of: "distinct (map fst (categoryMap_of ts))"
  by (simp only: keys_categoryMap_of_order distinct_rev distinct_remdups)

lemma set_Object_entries: "set (Object_entries obj) = set obj"
  by (auto simp: Object_entries_def)

lemma length_Object_entries: "length (Object_entries obj) = length obj"
  by (simp add: Object_entries_def sum_length_filter_compl)

lemma distinct_Object_entries:
  assumes "distinct (map fst obj)"
  shows "distinct (map fst (Object_entries obj))"
proof -
  have "distinct (map fst (sort_key (\<lambda>p. dec_value (fst p)) (filter (\<lambda>p. is_array_index (fst p)) obj)))"
    using assms by (simp add: distinct_map_filter distinct_map inj_on_def) 
  then show ?thesis
    using assms by (auto simp: Object_entries_def distinct_map_filter)
qed

lemma Object_entries_plain:
  assumes "\<forall>p \<in> set obj. \<not> is_array_index (fst p)"
  shows "Object_entries obj = obj"
  using assms by (simp add: Object_entries_def filter_empty_conv)





text \<open>Buckets that hold numbers.\<close>

lemma good_js_add:
  assumes "good v" and "is_neg a"
  shows "good (js_add v (Math_abs a))"
proof (cases a)
  case a: (Fin s)
  show ?thesis
  proof (cases v)
    case v: (Fin r)
    from assms v have "0 \<le> r" by (simp add: good_def)
    then have "0 \<le> r + \<bar>s\<bar>" by simp
    from fl_nonneg [OF this] fl_grid [of "r + \<bar>s\<bar>"] show ?thesis
      using a v by (auto simp: good_def)
  qed (use assms a in \<open>simp_all add: good_def\<close>)
next
  case NInf
  with assms show ?thesis by (cases v) (simp_all add: good_def)
qed (use assms in simp_all)

lemma good_zero: "good (Fin 0)"
  by (simp add: good_def grid_def)

lemma good_or_zero: "good v \<Longrightarrow> good (if falsy v then Fin 0 else v)"
  by (simp add: good_zero)

lemma in_set_update:
  "p \<in> set (AList.update k v m) \<Longrightarrow> p = (k, v) \<or> p \<in> set m"
  by (induction m) (auto split: if_splits)

lemma add_expense_numbers:
  assumes "\<forall>p \<in> set m. \<exists>v. snd p = Num v \<and> good v"
    and "is_neg (amount t) \<longrightarrow> category t \<notin> set inherited_methods"
  shows "\<forall>p \<in> set (add_expense m t). \<exists>v. snd p = Num v \<and> good v"
proof (cases "is_neg (amount t) \<and> category t \<noteq> ''__proto__''")
  case False
  then have "add_expense m t = m" by (auto simp: add_expense_def set_property_def)
  with assms show ?thesis by simp
next
  case True
  let ?k = "category t"
  let ?new = "or_zero_plus (get_property m ?k) (Math_abs (amount t))"
  have new: "\<exists>v. ?new = Num v \<and> good v"
  proof (cases "map_of m ?k")
    case None
    with True assms(2) have "?new = Num (js_add (Fin 0) (Math_abs (amount t)))"
      by (simp add: get_property_def or_zero_plus_def)
    moreover have "good (js_add (Fin 0) (Math_abs (amount t)))"
      using good_zero True by (intro good_js_add) simp_all
    ultimately show ?thesis by blast
  next
    case (Some w)
    then have "(?k, w) \<in> set m" by (rule map_of_SomeD)
    with assms(1) obtain v where v: "w = Num v" "good v" by fastforce
    with Some have "?new = Num (js_add (if falsy v then Fin 0 else v) (Math_abs (amount t)))"
      by (simp add: get_property_def or_zero_plus_def)
    moreover have "good (js_add (if falsy v then Fin 0 else v) (Math_abs (amount t)))"
      using v(2) True by (intro good_js_add good_or_zero) simp_all
    ultimately show ?thesis by blast
  qed
  have "add_expense m t = AList.update ?k ?new m"
    using True by (simp add: add_expense_def set_property_def Let_def)
  with new assms(1) show ?thesis
    by (auto dest!: in_set_update)
qed

lemma categoryMap_of_numbers:
  assumes "\<forall>t \<in> set ts. is_neg (amount t) \<longrightarrow> category t \<notin> set inherited_methods"
  shows "\<forall>p \<in> set (categoryMap_of ts). \<exists>v. snd p = Num v \<and> good v"
  using assms
proof (induction ts rule: rev_induct)
  case Nil
  then show ?case by (simp add: categoryMap_of_Nil)
next
  case (snoc t ts)
  then have "\<forall>p \<in> set (categoryMap_of ts). \<exists>v. snd p = Num v \<and> good v" by simp
  moreover from snoc.prems have "is_neg (amount t) \<longrightarrow> category t \<notin> set inherited_methods" by simp
  ultimately have "\<forall>p \<in> set (add_expense (categoryMap_of ts) t). \<exists>v. snd p = Num v \<and> good v"
    by (rule add_expense_numbers)
  then show ?case by (simp only: categoryMap_of_snoc)
qed

section \<open>Whole amounts\<close>

lemma js_add_int:
  assumes "\<bar>a + b\<bar> \<le> 2 ^ 53"
  shows "js_add (Fin (of_int a)) (Fin (of_int b)) = Fin (of_int (a + b))"
proof -
  have "js_add (Fin (of_int a)) (Fin (of_int b)) = fl (of_int (a + b))" by simp
  also have "\<dots> = Fin (of_int (a + b))" using assms by (rule fl_int)
  finally show ?thesis .
qed

lemma foldl_js_add_int:
  assumes "\<forall>t \<in> set xs. amount t = Fin (of_int (iv t))"
    and "\<bar>a\<bar> + sum_list (map (\<lambda>t. \<bar>iv t\<bar>) xs) \<le> 2 ^ 53"
  shows "foldl (\<lambda>acc t. js_add acc (amount t)) (Fin (of_int a)) xs
         = Fin (of_int (a + sum_list (map iv xs)))"
  using assms
proof (induction xs arbitrary: a)
  case Nil
  then show ?case by simp
next
  case (Cons x xs)
  have nonneg: "0 \<le> sum_list (map (\<lambda>t. \<bar>iv t\<bar>) xs)"
    by (rule sum_list_nonneg) auto
  from Cons.prems have x: "amount x = Fin (of_int (iv x))" by simp
  from Cons.prems(2) nonneg have "\<bar>a + iv x\<bar> \<le> 2 ^ 53" by simp
  then have step: "js_add (Fin (of_int a)) (amount x) = Fin (of_int (a + iv x))"
    unfolding x by (rule js_add_int)
  from Cons.prems(2) have "\<bar>a + iv x\<bar> + sum_list (map (\<lambda>t. \<bar>iv t\<bar>) xs) \<le> 2 ^ 53" by simp
  with Cons.prems(1) have "foldl (\<lambda>acc t. js_add acc (amount t)) (Fin (of_int (a + iv x))) xs
        = Fin (of_int (a + iv x + sum_list (map iv xs)))"
    by (intro Cons.IH) simp_all
  with step show ?case by (simp add: add.assoc)
qed

lemma sum_list_filter_le:
  fixes f :: "'a \<Rightarrow> int"
  assumes "\<forall>x \<in> set xs. 0 \<le> f x"
  shows "sum_list (map f (filter P xs)) \<le> sum_list (map f xs)"
  using assms by (induction xs) (auto intro: add_increasing)

lemma reduce_exact:
  assumes "\<forall>t \<in> set ts. amount t = Fin (of_int (iv t))"
    and "sum_list (map (\<lambda>t. \<bar>iv t\<bar>) ts) \<le> 2 ^ 53"
  shows "foldl (\<lambda>acc t. js_add acc (amount t)) (Fin 0) (filter P ts)
         = Fin (of_int (sum_list (map iv (filter P ts))))"
proof -
  have "sum_list (map (\<lambda>t. \<bar>iv t\<bar>) (filter P ts)) \<le> sum_list (map (\<lambda>t. \<bar>iv t\<bar>) ts)"
    by (rule sum_list_filter_le) simp
  with assms(2) have "\<bar>0\<bar> + sum_list (map (\<lambda>t. \<bar>iv t\<bar>) (filter P ts)) \<le> 2 ^ 53" by simp
  moreover from assms(1) have "\<forall>t \<in> set (filter P ts). amount t = Fin (of_int (iv t))" by simp
  ultimately have "foldl (\<lambda>acc t. js_add acc (amount t)) (Fin (of_int 0)) (filter P ts)
         = Fin (of_int (0 + sum_list (map iv (filter P ts))))"
    by (rule foldl_js_add_int [rotated])
  then show ?thesis by simp
qed

lemma sum_list_split_sign:
  fixes f :: "'a \<Rightarrow> int"
  shows "sum_list (map f (filter (\<lambda>t. 0 < f t) xs)) + sum_list (map f (filter (\<lambda>t. f t < 0) xs))
         = sum_list (map f xs)"
  by (induction xs) auto


lemma abs_sum_le:
  fixes f :: "'a \<Rightarrow> int"
  shows "\<bar>sum_list (map f xs)\<bar> \<le> sum_list (map (\<lambda>t. \<bar>f t\<bar>) xs)"
  by (induction xs) auto

lemma filter_sign_cong:
  assumes "\<forall>t \<in> set ts. amount t = Fin (of_int (iv t))"
  shows "filter (\<lambda>t. is_pos (amount t)) ts = filter (\<lambda>t. 0 < iv t) ts"
    and "filter (\<lambda>t. is_neg (amount t)) ts = filter (\<lambda>t. iv t < 0) ts"
  using assms by (auto intro!: filter_cong)

lemma income_exact:
  assumes "\<forall>t \<in> set ts. amount t = Fin (of_int (iv t))"
    and "sum_list (map (\<lambda>t. \<bar>iv t\<bar>) ts) \<le> 2 ^ 53"
  shows "income (summary_of ts) = Fin (of_int (sum_list (map iv (filter (\<lambda>t. 0 < iv t) ts))))"
proof -
  have "income (summary_of ts)
        = foldl (\<lambda>acc t. js_add acc (amount t)) (Fin 0) (filter (\<lambda>t. is_pos (amount t)) ts)"
    by (simp add: summary_of_def Let_def)
  also have "\<dots> = Fin (of_int (sum_list (map iv (filter (\<lambda>t. is_pos (amount t)) ts))))"
    using assms by (rule reduce_exact)
  finally show ?thesis by (simp only: filter_sign_cong [OF assms(1)])
qed

lemma raw_expenses_exact:
  assumes "\<forall>t \<in> set ts. amount t = Fin (of_int (iv t))"
    and "sum_list (map (\<lambda>t. \<bar>iv t\<bar>) ts) \<le> 2 ^ 53"
  shows "foldl (\<lambda>acc t. js_add acc (amount t)) (Fin 0) (filter (\<lambda>t. is_neg (amount t)) ts)
         = Fin (of_int (sum_list (map iv (filter (\<lambda>t. iv t < 0) ts))))"
proof -
  have "foldl (\<lambda>acc t. js_add acc (amount t)) (Fin 0) (filter (\<lambda>t. is_neg (amount t)) ts)
        = Fin (of_int (sum_list (map iv (filter (\<lambda>t. is_neg (amount t)) ts))))"
    using assms by (rule reduce_exact)
  then show ?thesis by (simp only: filter_sign_cong [OF assms(1)])
qed


lemma net_exact:
  assumes "\<forall>t \<in> set ts. amount t = Fin (of_int (iv t))"
    and "sum_list (map (\<lambda>t. \<bar>iv t\<bar>) ts) \<le> 2 ^ 53"
  shows "net (summary_of ts) = Fin (of_int (sum_list (map iv ts)))"
proof -
  let ?p = "sum_list (map iv (filter (\<lambda>t. 0 < iv t) ts))"
  let ?n = "sum_list (map iv (filter (\<lambda>t. iv t < 0) ts))"
  have "net (summary_of ts)
        = js_add (foldl (\<lambda>acc t. js_add acc (amount t)) (Fin 0) (filter (\<lambda>t. is_pos (amount t)) ts))
                 (foldl (\<lambda>acc t. js_add acc (amount t)) (Fin 0) (filter (\<lambda>t. is_neg (amount t)) ts))"
    by (simp add: summary_of_def Let_def)
  also have "\<dots> = js_add (Fin (of_int ?p)) (Fin (of_int ?n))"
    using income_exact [OF assms] raw_expenses_exact [OF assms]
    by (simp add: summary_of_def Let_def)
  also have "\<dots> = Fin (of_int (?p + ?n))"
  proof (rule js_add_int)
    have "\<bar>?p + ?n\<bar> = \<bar>sum_list (map iv ts)\<bar>" by (simp only: sum_list_split_sign)
    also have "\<dots> \<le> sum_list (map (\<lambda>t. \<bar>iv t\<bar>) ts)" by (rule abs_sum_le)
    finally show "\<bar>?p + ?n\<bar> \<le> 2 ^ 53" using assms(2) by simp
  qed
  finally show ?thesis by (simp only: sum_list_split_sign)
qed

lemma falsy_or_zero_int: "(if falsy (Fin (of_int n)) then Fin 0 else Fin (of_int n)) = Fin (of_int n)"
  by simp





lemma alist_by_keys:
  assumes "distinct (map fst m)" and "\<forall>k \<in> set (map fst m). map_of m k = Some (f k)"
  shows "m = map (\<lambda>k. (k, f k)) (map fst m)"
  using assms
proof (induction m)
  case Nil
  then show ?case by simp
next
  case (Cons p m)
  obtain a b where p: "p = (a, b)" by (cases p)
  from Cons.prems p have b: "b = f a" by simp
  have "\<forall>k \<in> set (map fst m). map_of m k = Some (f k)"
  proof
    fix k assume k: "k \<in> set (map fst m)"
    with Cons.prems(1) p have "k \<noteq> a" by auto
    moreover from k have "k \<in> set (map fst (p # m))" by simp
    with Cons.prems(2) have "map_of (p # m) k = Some (f k)" by (rule bspec)
    ultimately show "map_of m k = Some (f k)" using p by simp
  qed
  with Cons have "m = map (\<lambda>k. (k, f k)) (map fst m)" by simp
  with p b show ?case by simp
qed




section \<open>Rounding of the percentages\<close>



section \<open>Decimal texts\<close>

lemma digit_cases:
  assumes "d < (10::nat)"
  obtains "d = 0" | "d = 1" | "d = 2" | "d = 3" | "d = 4" | "d = 5" | "d = 6" | "d = 7" | "d = 8" | "d = 9"
proof -
  from assms have "d \<in> set [0..<10]" by simp
  also have "[0..<10] = [0, 1, 2, 3, 4, 5, 6, 7, 8, 9::nat]" by (simp add: upt_rec)
  finally show thesis using that by auto
qed

lemma digit_char_value: "d < 10 \<Longrightarrow> digit_value (''0123456789'' ! d) = d"
  by (erule digit_cases) (simp_all add: digit_value_def)

lemma digit_char_is_digit: "d < 10 \<Longrightarrow> is_digit (''0123456789'' ! d)"
  by (erule digit_cases) (simp_all add: is_digit_def)

lemma is_digit_not_minus: "is_digit c \<Longrightarrow> c \<noteq> CHR ''-''"
  by (auto simp: is_digit_def)

lemma dec_value_snoc: "dec_value (s @ [c]) = 10 * dec_value s + digit_value c"
  by (simp add: dec_value_def)

lemma dec_value_digits: "dec_value (digits n) = n"
proof (induction n rule: digits.induct)
  case (1 n)
  show ?case
  proof (cases "n < 10")
    case True
    then show ?thesis
      by (subst digits.simps) (simp add: dec_value_def digit_char_value)
  next
    case False
    with 1 have "dec_value (digits (n div 10)) = n div 10" by simp
    with False show ?thesis
      by (subst digits.simps) (simp add: dec_value_snoc digit_char_value)
  qed
qed

lemma digits_all_digit: "list_all is_digit (digits n)"
proof (induction n rule: digits.induct)
  case (1 n)
  show ?case
  proof (cases "n < 10")
    case True
    then show ?thesis
      by (subst digits.simps) (simp add: digit_char_is_digit)
  next
    case False
    with 1 have "list_all is_digit (digits (n div 10))" by simp
    with False show ?thesis
      by (subst digits.simps) (simp add: digit_char_is_digit)
  qed
qed

lemma digits_inj: "digits m = digits n \<Longrightarrow> m = n"
  by (metis dec_value_digits)

lemma digits_no_minus: "CHR ''-'' \<notin> set (digits n)"
  using digits_all_digit [of n] is_digit_not_minus by (auto simp: list_all_iff)

lemma digits_nonempty: "digits n \<noteq> []"
  by (subst digits.simps) simp

lemma show_int_inj: "show_int a = show_int b \<Longrightarrow> a = b"
proof -
  assume eq: "show_int a = show_int b"
  have neg: "hd (show_int i) = CHR ''-'' \<longleftrightarrow> i < 0" for i
  proof (cases "i < 0")
    case True
    then show ?thesis by (simp add: show_int_def)
  next
    case False
    have "hd (digits (nat i)) \<in> set (digits (nat i))"
      by (simp add: digits_nonempty)
    with digits_no_minus [of "nat i"] have "hd (digits (nat i)) \<noteq> CHR ''-''" by metis
    with False show ?thesis by (simp add: show_int_def)
  qed
  show "a = b"
  proof (cases "a < 0")
    case True
    with eq neg [of a] neg [of b] have "b < 0" by simp
    with True eq have "digits (nat (- a)) = digits (nat (- b))" by (simp add: show_int_def)
    then have "nat (- a) = nat (- b)" by (rule digits_inj)
    with True \<open>b < 0\<close> show ?thesis by simp
  next
    case False
    with eq neg [of a] neg [of b] have "\<not> b < 0" by simp
    with False eq have "digits (nat a) = digits (nat b)" by (simp add: show_int_def)
    then have "nat a = nat b" by (rule digits_inj)
    with False \<open>\<not> b < 0\<close> show ?thesis by simp
  qed
qed

lemma split_at_last_sep:
  assumes "xs @ c # ys = xs' @ c # ys'" and "c \<notin> set ys" and "c \<notin> set ys'"
  shows "xs = xs' \<and> ys = ys'"
  using assms
proof (induction xs arbitrary: xs')
  case Nil
  then show ?case by (cases xs') auto
next
  case (Cons x xs)
  then show ?case by (cases xs') auto
qed

lemma id_text_inj:
  assumes "show_int t @ ''-'' @ digits i = show_int t' @ ''-'' @ digits i'"
  shows "t = t' \<and> i = i'"
proof -
  from assms have "show_int t @ CHR ''-'' # digits i = show_int t' @ CHR ''-'' # digits i'"
    by simp
  then have "show_int t = show_int t' \<and> digits i = digits i'"
    by (rule split_at_last_sep) (rule digits_no_minus)+
  then show ?thesis by (auto dest: show_int_inj digits_inj)
qed

section \<open>The loop over the files\<close>

lemma concat_map_upt_Suc:
  "concat (map f [0..<Suc n]) = f 0 @ concat (map (\<lambda>k. f (Suc k)) [0..<n])"
proof -
  have "[0..<Suc n] = 0 # map Suc [0..<n]"
    by (simp add: upt_conv_Cons map_Suc_upt del: upt_Suc)
  then show ?thesis by (simp add: comp_def del: upt_Suc)
qed

lemma for_files_success:
  assumes "\<forall>k < length fs. extractTransactions (respond (i + k) (fs ! k)) (now (i + k)) = Inr (rs (i + k))"
    and "processedCount s = i"
  shows "\<exists>idx. for_files respond now fs i acc s =
           (Inr (acc @ concat (map (\<lambda>k. map (tag (name (fs ! k))) (rs (i + k))) [0..<length fs])),
            s\<lparr>processedCount := i + length fs, currentlyProcessingIdx := idx\<rparr>)"
  using assms
proof (induction fs arbitrary: i acc s)
  case Nil
  then have "for_files respond now [] i acc s =
      (Inr (acc @ concat (map (\<lambda>k. map (tag (name ([] ! k))) (rs (i + k))) [0..<length []])),
       s\<lparr>processedCount := i + length [], currentlyProcessingIdx := currentlyProcessingIdx s\<rparr>)"
    by simp
  then show ?case by blast
next
  case (Cons f fs)
  from Cons.prems(1) have here: "extractTransactions (respond i f) (now i) = Inr (rs i)"
    by force
  from Cons.prems(1)
  have rest: "\<forall>k < length fs. extractTransactions (respond (Suc i + k) (fs ! k)) (now (Suc i + k)) = Inr (rs (Suc i + k))"
    by fastforce
  let ?s2 = "s\<lparr>currentlyProcessingIdx := Some i, processedCount := i + 1\<rparr>"
  have "processedCount ?s2 = Suc i" by simp
  from Cons.IH [OF rest this, of "acc @ map (tag (name f)) (rs i)"]
  obtain idx where step:
    "for_files respond now fs (Suc i) (acc @ map (tag (name f)) (rs i)) ?s2 =
       (Inr ((acc @ map (tag (name f)) (rs i))
             @ concat (map (\<lambda>k. map (tag (name (fs ! k))) (rs (Suc i + k))) [0..<length fs])),
        ?s2\<lparr>processedCount := Suc i + length fs, currentlyProcessingIdx := idx\<rparr>)"
    by blast
  have "for_files respond now (f # fs) i acc s =
          for_files respond now fs (Suc i) (acc @ map (tag (name f)) (rs i)) ?s2"
    by (simp add: here)
  also note step
  finally have "for_files respond now (f # fs) i acc s =
      (Inr (acc @ concat (map (\<lambda>k. map (tag (name ((f # fs) ! k))) (rs (i + k))) [0..<length (f # fs)])),
       s\<lparr>processedCount := i + length (f # fs), currentlyProcessingIdx := idx\<rparr>)"
    by (simp add: concat_map_upt_Suc del: upt_Suc for_files.simps)
  then show ?case by blast
qed

lemma for_files_failure:
  assumes "j < length fs"
    and "extractTransactions (respond (i + j) (fs ! j)) (now (i + j)) = Inl err"
    and "\<forall>k < j. extractTransactions (respond (i + k) (fs ! k)) (now (i + k)) = Inr (rs (i + k))"
    and "processedCount s = i"
  shows "for_files respond now fs i acc s =
           (Inl err, s\<lparr>processedCount := i + j, currentlyProcessingIdx := Some (i + j)\<rparr>)"
  using assms
proof (induction fs arbitrary: i j acc s)
  case Nil
  then show ?case by simp
next
  case (Cons f fs)
  show ?case
  proof (cases j)
    case 0
    with Cons.prems show ?thesis by simp
  next
    case (Suc j')
    from Cons.prems(3) Suc have here: "extractTransactions (respond i f) (now i) = Inr (rs i)"
      by force
    from Cons.prems(1) Suc have 1: "j' < length fs" by simp
    from Cons.prems(2) Suc
    have 2: "extractTransactions (respond (Suc i + j') (fs ! j')) (now (Suc i + j')) = Inl err"
      by simp
    from Cons.prems(3) Suc
    have 3: "\<forall>k < j'. extractTransactions (respond (Suc i + k) (fs ! k)) (now (Suc i + k)) = Inr (rs (Suc i + k))"
      by fastforce
    let ?s2 = "s\<lparr>currentlyProcessingIdx := Some i, processedCount := i + 1\<rparr>"
    have 4: "processedCount ?s2 = Suc i" by simp
    have "for_files respond now (f # fs) i acc s =
            for_files respond now fs (Suc i) (acc @ map (tag (name f)) (rs i)) ?s2"
      by (simp add: here)
    also have "\<dots> = (Inl err, ?s2\<lparr>processedCount := Suc i + j', currentlyProcessingIdx := Some (Suc i + j')\<rparr>)"
      by (rule Cons.IH [OF 1 2 3 4])
    finally show ?thesis using Suc by simp
  qed
qed

lemma processStatements_success:
  assumes ne: "files s \<noteq> []"
    and ok: "\<forall>k < length (files s).
            extractTransactions (respond k (files s ! k)) (now k) = Inr (rs k)"
  shows "processStatements respond now s =
           s\<lparr>transactions :=
                concat (map (\<lambda>k. map (tag (name (files s ! k))) (rs k)) [0..<length (files s)]),
             status := SUCCESS, error := None, processedCount := length (files s),
             currentlyProcessingIdx := None, selectedView := ''all''\<rparr>"
proof -
  let ?s0 = "s\<lparr>status := ANALYZING, error := None, processedCount := 0, transactions := []\<rparr>"
  from ok have "\<forall>k < length (files s).
      extractTransactions (respond (0 + k) (files s ! k)) (now (0 + k)) = Inr (rs (0 + k))"
    by simp
  moreover have "processedCount ?s0 = 0" by simp
  ultimately obtain idx where
    "for_files respond now (files s) 0 [] ?s0 =
       (Inr ([] @ concat (map (\<lambda>k. map (tag (name (files s ! k))) (rs (0 + k))) [0..<length (files s)])),
        ?s0\<lparr>processedCount := 0 + length (files s), currentlyProcessingIdx := idx\<rparr>)"
    using for_files_success [of "files s" respond 0 now rs ?s0 "[]"] by blast
  with ne show ?thesis
    by (simp add: processStatements_def)
qed

lemma processStatements_failure:
  assumes "j < length (files s)"
    and "extractTransactions (respond j (files s ! j)) (now j) = Inl err"
    and "\<forall>k < j. extractTransactions (respond k (files s ! k)) (now k) = Inr (rs k)"
  shows "processStatements respond now s =
           s\<lparr>transactions := [], status := ERROR, error := Some (error_text err),
             processedCount := j, currentlyProcessingIdx := None\<rparr>"
proof -
  let ?s0 = "s\<lparr>status := ANALYZING, error := None, processedCount := 0, transactions := []\<rparr>"
  have "for_files respond now (files s) 0 [] ?s0 =
          (Inl err, ?s0\<lparr>processedCount := 0 + j, currentlyProcessingIdx := Some (0 + j)\<rparr>)"
    by (rule for_files_failure [where rs = rs]) (use assms in simp_all)
  with assms(1) show ?thesis
    by (auto simp: processStatements_def)
qed

lemma truncate_tag: "ExtractedTransaction.truncate (tag n t) = t"
  by (simp add: tag_def ExtractedTransaction.truncate_def)

lemma sourceFile_tag: "sourceFile (tag n t) = n"
  by (simp add: tag_def)

lemma map_concat_upt:
  "map g (concat (map (\<lambda>k. map (f k) (rs k)) [0..<n])) = concat (map (\<lambda>k. map (\<lambda>t. g (f k t)) (rs k)) [0..<n])"
  by (simp add: map_concat comp_def)

lemma first_failure:
  fixes n :: nat
  assumes "k < n" and "P k"
  obtains j where "j < n" "P j" "\<forall>i < j. \<not> P i"
proof -
  define j where "j = (LEAST j. P j)"
  have 1: "P j" unfolding j_def using assms(2) by (rule LeastI [of P k])
  have "j \<le> k" unfolding j_def using assms(2) by (rule Least_le [of P k])
  with assms(1) have 2: "j < n" by simp
  have 3: "\<forall>i < j. \<not> P i"
  proof (intro allI impI)
    fix i assume "i < j"
    then show "\<not> P i" unfolding j_def by (rule not_less_Least)
  qed
  from 2 1 3 show thesis by (rule that)
qed

section \<open>The identifiers\<close>

lemma txn_id_tag: "txn_id (tag n t) = txn_id t"
  by (simp add: tag_def)

lemma ids_of_extraction:
  assumes "extractTransactions (Parsed ts) nw = Inr r"
  shows "map txn_id r = map (\<lambda>i. show_int (nw i) @ ''-'' @ digits i) [0..<length ts]"
proof -
  have "map txn_id (map (\<lambda>(index, t).
           \<lparr>date = date t, description = description t, amount = amount t,
            category = category t, txn_notes = txn_notes t,
            txn_id = show_int (nw index) @ ''-'' @ digits index\<rparr>) (enumerate n ts))
        = map (\<lambda>i. show_int (nw i) @ ''-'' @ digits i) [n..<n + length ts]" for n
    by (induction ts arbitrary: n) (simp_all add: upt_conv_Cons del: upt_Suc)
  from this [of 0]
  have "map txn_id (map (\<lambda>(index, t).
           \<lparr>date = date t, description = description t, amount = amount t,
            category = category t, txn_notes = txn_notes t,
            txn_id = show_int (nw index) @ ''-'' @ digits index\<rparr>) (enumerate 0 ts))
        = map (\<lambda>i. show_int (nw i) @ ''-'' @ digits i) [0..<length ts]"
    by (simp only: add_0)
  moreover from assms have "r = map (\<lambda>(index, t).
           \<lparr>date = date t, description = description t, amount = amount t,
            category = category t, txn_notes = txn_notes t,
            txn_id = show_int (nw index) @ ''-'' @ digits index\<rparr>) (enumerate 0 ts)"
    by (simp add: extractTransactions_def)
  ultimately show ?thesis by (simp only:)
qed

lemma set_positions: "set (positions len n) = {(k, i). k < n \<and> i < len k}"
  by (auto simp: positions_def)

lemma distinct_positions: "distinct (positions len n)"
proof (induction n)
  case 0
  then show ?case by (simp add: positions_def)
next
  case (Suc n)
  have "positions len (Suc n) = positions len n @ map (Pair n) [0..<len n]"
    by (simp add: positions_def)
  moreover have "distinct (map (Pair n) [0..<len n])"
    by (simp add: distinct_map inj_on_def)
  moreover have "set (positions len n) \<inter> set (map (Pair n) [0..<len n]) = {}"
    by (auto simp: set_positions)
  ultimately show ?case using Suc by simp
qed

lemma ids_of_batch:
  assumes "\<forall>k < n. map txn_id (rs k) = map (\<lambda>i. show_int (now k i) @ ''-'' @ digits i) [0..<len k]"
  shows "map txn_id (concat (map (\<lambda>k. map (tag (nm k)) (rs k)) [0..<n]))
         = map (\<lambda>(k, i). show_int (now k i) @ ''-'' @ digits i) (positions len n)"
  using assms
proof (induction n)
  case 0
  then show ?case by (simp add: positions_def)
next
  case (Suc n)
  then have "map txn_id (concat (map (\<lambda>k. map (tag (nm k)) (rs k)) [0..<n]))
         = map (\<lambda>(k, i). show_int (now k i) @ ''-'' @ digits i) (positions len n)"
    by simp
  moreover have "map txn_id (map (tag (nm n)) (rs n)) = map txn_id (rs n)"
    by (simp add: txn_id_tag)
  moreover from Suc.prems
  have "map txn_id (rs n) = map (\<lambda>i. show_int (now n i) @ ''-'' @ digits i) [0..<len n]"
    by simp
  ultimately show ?case
    by (simp add: positions_def comp_def)
qed

lemma inj_on_ids:
  "inj_on (\<lambda>(k, i). show_int (now k i) @ ''-'' @ digits i) {(k, i). k < n \<and> i < len k}
   \<longleftrightarrow> (\<forall>k < n. \<forall>k' < n. \<forall>i. k \<noteq> k' \<and> i < len k \<and> i < len k' \<longrightarrow> now k i \<noteq> now k' (i::nat))"
  (is "?inj \<longleftrightarrow> ?clock")
proof
  assume inj: ?inj
  show ?clock
  proof (intro allI impI)
    fix k k' i
    assume "k < n" "k' < n" and c: "k \<noteq> k' \<and> i < len k \<and> i < len k'"
    show "now k i \<noteq> now k' i"
    proof
      assume "now k i = now k' i"
      then have "(\<lambda>(k, i). show_int (now k i) @ ''-'' @ digits i) (k, i)
               = (\<lambda>(k, i). show_int (now k i) @ ''-'' @ digits i) (k', i)"
        by simp
      moreover have "(k, i) \<in> {(k, i). k < n \<and> i < len k}" "(k', i) \<in> {(k, i). k < n \<and> i < len k}"
        using \<open>k < n\<close> \<open>k' < n\<close> c by simp_all
      ultimately have "(k, i) = (k', i)"
        using inj by (rule inj_onD [rotated])
      with c show False by simp
    qed
  qed
next
  assume clock: ?clock
  show ?inj
  proof (rule inj_onI)
    fix p q
    assume p: "p \<in> {(k, i). k < n \<and> i < len k}" and q: "q \<in> {(k, i). k < n \<and> i < len k}"
      and eq: "(case p of (k, i) \<Rightarrow> show_int (now k i) @ ''-'' @ digits i)
             = (case q of (k, i) \<Rightarrow> show_int (now k i) @ ''-'' @ digits i)"
    obtain k i where pk: "p = (k, i)" by (cases p)
    obtain k' i' where qk: "q = (k', i')" by (cases q)
    from eq pk qk have "show_int (now k i) @ ''-'' @ digits i = show_int (now k' i') @ ''-'' @ digits i'"
      by simp
    then have same: "now k i = now k' i' \<and> i = i'" by (rule id_text_inj)
    have "k = k'"
    proof (rule ccontr)
      assume "k \<noteq> k'"
      with clock p q pk qk same have "now k i \<noteq> now k' i" by auto
      with same show False by auto
    qed
    with same pk qk show "p = q" by simp
  qed
qed

section \<open>The entries of the summary\<close>

lemma cat_value_category_entry: "cat_value (category_entry T e) = snd (snd e)"
  by (cases e) (simp add: category_entry_def)

lemma cat_name_category_entry: "cat_name (category_entry T e) = fst (snd e)"
  by (cases e) (simp add: category_entry_def)

lemma color_category_entry: "color (category_entry T e) = COLORS ! (fst e mod 8)"
  by (cases e) (simp add: category_entry_def COLORS_def)

lemma percentage_category_entry:
  "percentage (category_entry T e) =
     (if is_pos T then js_mul (js_div (to_number (cat_value (category_entry T e))) T) (Fin 100)
      else Fin 0)"
  by (cases e) (simp add: category_entry_def)

lemma categoryData_summary_of:
  "categoryData (summary_of ts) =
     Array_sort (\<lambda>a b. js_sub (to_number (cat_value b)) (to_number (cat_value a)))
       (map (category_entry (expenses (summary_of ts))) (enumerate 0 (Object_entries (categoryMap_of ts))))"
  by (simp add: summary_of_def Let_def)

lemma map_cat_value_entries:
  "map cat_value (map (category_entry T) (enumerate n es)) = map snd es"
  by (induction es arbitrary: n) (simp_all add: cat_value_category_entry)

lemma map_cat_name_entries:
  "map cat_name (map (category_entry T) (enumerate n es)) = map fst es"
  by (induction es arbitrary: n) (simp_all add: cat_name_category_entry)

lemma nth_pre_sort:
  assumes "i < length es"
  shows "map (category_entry T) (enumerate 0 es) ! i = category_entry T (i, es ! i)"
  using assms by (simp add: nth_enumerate_eq)

lemma entry_of_categoryData:
  assumes "e \<in> set (categoryData (summary_of ts))"
  shows "(cat_name e, cat_value e) \<in> set (categoryMap_of ts)
         \<and> percentage e = (if is_pos (expenses (summary_of ts))
                            then js_mul (js_div (to_number (cat_value e)) (expenses (summary_of ts))) (Fin 100)
                            else Fin 0)"
proof -
  let ?E = "expenses (summary_of ts)"
  from assms have "e \<in> set (map (category_entry ?E) (enumerate 0 (Object_entries (categoryMap_of ts))))"
    by (simp only: categoryData_summary_of set_Array_sort)
  then obtain x where x: "x \<in> set (enumerate 0 (Object_entries (categoryMap_of ts)))"
    and e: "e = category_entry ?E x" by auto
  obtain i k v where ikv: "x = (i, k, v)" by (cases x)
  with x have "i < length (Object_entries (categoryMap_of ts))"
    and "Object_entries (categoryMap_of ts) ! i = (k, v)"
    by (simp_all add: in_set_enumerate_eq)
  then have "(k, v) \<in> set (Object_entries (categoryMap_of ts))"
    using nth_mem by fastforce
  then have "(k, v) \<in> set (categoryMap_of ts)" by (simp only: set_Object_entries)
  with e ikv show ?thesis
    by (simp add: cat_name_category_entry cat_value_category_entry percentage_category_entry)
qed


lemma names_of_categoryData:
  shows "set (map cat_name (categoryData (summary_of ts))) = fst ` set (categoryMap_of ts)"
    and "distinct (map cat_name (categoryData (summary_of ts)))"
proof -
  let ?pre = "map (category_entry (expenses (summary_of ts))) (enumerate 0 (Object_entries (categoryMap_of ts)))"
  have names: "map cat_name ?pre = map fst (Object_entries (categoryMap_of ts))"
    by (rule map_cat_name_entries)
  have "set (map cat_name (categoryData (summary_of ts))) = cat_name ` set ?pre"
    by (simp only: categoryData_summary_of set_Array_sort set_map)
  also have "\<dots> = set (map cat_name ?pre)" by (simp only: set_map)
  also have "\<dots> = fst ` set (categoryMap_of ts)"
    by (simp only: names set_map set_Object_entries)
  finally show "set (map cat_name (categoryData (summary_of ts))) = fst ` set (categoryMap_of ts)" .
  have "distinct (map cat_name ?pre)"
    by (simp only: names distinct_Object_entries distinct_categoryMap_of)
  then show "distinct (map cat_name (categoryData (summary_of ts)))"
    by (simp only: categoryData_summary_of distinct_Array_sort)
qed



lemma whole_amounts:
  assumes "map amount ts = map (\<lambda>n. Fin (of_int n)) ns"
  obtains iv where "\<forall>t \<in> set ts. amount t = Fin (of_int (iv t))" and "map iv ts = ns"
proof -
  define g :: "number \<Rightarrow> int" where "g = (\<lambda>v. case v of Fin r \<Rightarrow> \<lfloor>r\<rfloor> | _ \<Rightarrow> 0)"
  have g: "g (Fin (of_int n)) = n" for n by (simp add: g_def)
  have "map (\<lambda>t. g (amount t)) ts = map g (map amount ts)" by simp
  also have "\<dots> = map g (map (\<lambda>n. Fin (of_int n)) ns)" by (simp only: assms)
  also have "\<dots> = ns" by (simp add: g comp_def)
  finally have 2: "map (\<lambda>t. g (amount t)) ts = ns" .
  have 1: "\<forall>t \<in> set ts. amount t = Fin (of_int (g (amount t)))"
  proof
    fix t assume "t \<in> set ts"
    then have "amount t \<in> set (map amount ts)" by simp
    then have "amount t \<in> set (map (\<lambda>n. Fin (of_int n)) ns)" by (simp only: assms)
    then obtain n where "amount t = Fin (of_int n)" by auto
    then show "amount t = Fin (of_int (g (amount t)))" by (simp add: g)
  qed
  from 1 2 show ?thesis by (rule that)
qed

lemma sum_abs_map:
  "sum_list (map (\<lambda>t. \<bar>iv t\<bar>) ts) = sum_list (map abs (map iv ts))"
  by (simp add: comp_def)


lemma sum_list_map_cong_set:
  assumes "\<forall>x \<in> set xs. f x = g x"
  shows "map f xs = map g xs"
  using assms by simp




section \<open>The rows of the export\<close>

lemma join_rows:
  "rows \<noteq> [] \<Longrightarrow> join sep (h # rows) = h @ sep @ join sep rows"
  by (cases rows) simp_all

lemma csv_rows:
  assumes "currentTransactions s \<noteq> []"
  shows "exportToCSV num_text s
         = Some (''Date,Description,Amount,Category,Notes,Source'' @ [CHR 0x0A]
                 @ join [CHR 0x0A]
                     (map (\<lambda>t. date t @ '','' @ quoted (replace_quotes (description t)) @ '',''
                               @ num_text (amount t) @ '','' @ category t @ '',''
                               @ quoted (replace_quotes (case txn_notes t of None \<Rightarrow> [] | Some n \<Rightarrow> n))
                               @ '','' @ quoted (sourceFile t))
                        (currentTransactions s)))"
  using assms by (simp add: exportToCSV_def csv_header_def csv_cells_def join_rows)

section \<open>The examples, evaluated\<close>

lemma fl_numeral:
  "(numeral k :: int) \<le> 2 ^ 53 \<Longrightarrow> fl (numeral k) = Fin (numeral k)"
  using fl_int [of "numeral k"] by simp

lemma fl_neg_numeral:
  "(numeral k :: int) \<le> 2 ^ 53 \<Longrightarrow> fl (- numeral k) = Fin (- numeral k)"
  using fl_int [of "- numeral k"] by simp

lemma fl_one: "fl 1 = Fin 1"
  using fl_int [of 1] by simp

lemma fl_neg_one: "fl (- 1) = Fin (- 1)"
  using fl_int [of "- 1"] by simp

lemmas eval_fl = fl_zero fl_one fl_neg_one fl_numeral fl_neg_numeral

lemmas eval_summary =
  summary_of_def categoryMap_of_def add_expense_def example_tx_def
  get_property_def set_property_def or_zero_plus_def inherited_methods_def js_sub_def
  Object_entries_def is_array_index_def is_digit_def category_entry_def COLORS_def
  Array_sort_def enumerate_eq_zip upt_rec eval_fl


lemma summary_two_expenses:
  shows "map cat_name (categoryData (summary_of two_expenses)) = [''B'', ''A'']"
    and "map cat_value (categoryData (summary_of two_expenses)) = [Num (Fin 20), Num (Fin 10)]"
    and "map color (categoryData (summary_of two_expenses)) = [''#f43f5e'', ''#4f46e5'']"
  by (simp_all add: two_expenses_def eval_summary Let_def)

lemma summary_constructor_label:
  shows "map cat_name (categoryData (summary_of constructor_label)) = [''constructor'', ''Food'']"
    and "map cat_value (categoryData (summary_of constructor_label)) = [Str, Num (Fin 30)]"
    and "map color (categoryData (summary_of constructor_label)) = [''#4f46e5'', ''#f43f5e'']"
    and "expenses (summary_of constructor_label) = Fin 40"
  by (simp_all add: constructor_label_def eval_summary Let_def)

lemma summary_proto_label:
  shows "map cat_name (categoryData (summary_of proto_label)) = [''Food'']"
    and "map cat_value (categoryData (summary_of proto_label)) = [Num (Fin 30)]"
    and "map color (categoryData (summary_of proto_label)) = [''#4f46e5'']"
    and "expenses (summary_of proto_label) = Fin 40"
  by (simp_all add: proto_label_def eval_summary Let_def)

lemma round_even_near:
  assumes "\<bar>of_int n - m\<bar> < 1 / 2"
  shows "round_even m = n"
  using assms round_even_error [of m] by linarith

lemma round_even_tie: "round_even (of_int n + 1 / 2) = (if even n then n else n + 1)"
proof -
  have "\<lfloor>of_int n + (1 / 2 :: rat)\<rfloor> = n" by linarith
  then show ?thesis by (simp add: round_even_def)
qed

lemma fl_near:
  assumes "pow2 e \<le> \<bar>x\<bar>" and "\<bar>x\<bar> < pow2 (e + 1)"
    and "\<bar>of_int n - x / pow2 (max (e - 52) (- 1074))\<bar> < 1 / 2"
    and "\<bar>of_int n * pow2 (max (e - 52) (- 1074))\<bar> < 2 ^ 1024"
  shows "fl x = Fin (of_int n * pow2 (max (e - 52) (- 1074)))"
proof (rule fl_eval [where e = e])
  show "x \<noteq> 0" using assms(1) pow2_pos [of e] by auto
  show "n = round_even (x / pow2 (max (e - 52) (- 1074)))"
    using assms(3) by (rule round_even_near [symmetric])
qed (use assms in simp_all)

lemma fl_tie:
  assumes "pow2 e \<le> \<bar>x\<bar>" and "\<bar>x\<bar> < pow2 (e + 1)"
    and "x / pow2 (max (e - 52) (- 1074)) = of_int n + 1 / 2"
    and "\<bar>of_int (if even n then n else n + 1) * pow2 (max (e - 52) (- 1074))\<bar> < 2 ^ 1024"
  shows "fl x = Fin (of_int (if even n then n else n + 1) * pow2 (max (e - 52) (- 1074)))"
proof (rule fl_eval [where e = e])
  show "x \<noteq> 0" using assms(1) pow2_pos [of e] by auto
  show "(if even n then n else n + 1) = round_even (x / pow2 (max (e - 52) (- 1074)))"
    by (simp only: assms(3) round_even_tie)
qed (use assms in simp_all)

lemma fl_tie_above: "fl 9007199254740993 = Fin 9007199254740992"
  using fl_tie [where e = 53 and x = 9007199254740993 and n = 4503599627370496]
  by (simp add: pow2_def)

lemma fl_tie_below: "fl (- 9007199254740993) = Fin (- 9007199254740992)"
  using fl_tie [where e = 53 and x = "- 9007199254740993" and n = "- 4503599627370497"]
  by (simp add: pow2_def)


lemma fl_three_quarters: "fl (3 / 4) = Fin (3 / 4)"
  using fl_near [where e = "- 1" and x = "3 / 4" and n = 6755399441055744]
  by (simp add: pow2_def)



lemma summary_big_amounts:
  "income (summary_of big_amounts) = Fin 9007199254740992
   \<and> expenses (summary_of big_amounts) = Fin 9007199254740992
   \<and> net (summary_of big_amounts) = Fin 0"
  by (simp add: big_amounts_def summary_of_def example_tx_def Let_def eval_fl fl_tie_above fl_tie_below)






lemma digits_small: "n < 10 \<Longrightarrow> digits n = [''0123456789'' ! n]"
  by (subst digits.simps) simp

lemma digits_large: "\<not> n < 10 \<Longrightarrow> digits n = digits (n div 10) @ [''0123456789'' ! (n mod 10)]"
  by (subst digits.simps) simp

lemma show_clock: "show_int 1700000000000 = ''1700000000000''"
  by (simp add: show_int_def digits_small digits_large)

lemmas eval_batch =
  processStatements_def initial_state_def example_file_def example_raw_def
  extractTransactions_def tag_def error_text_def enumerate_eq_zip upt_rec
  digits_small digits_large

lemma run_two_files_standing:
  "map txn_id (transactions (processStatements respond_2_3 standing two_files))
   = [''1700000000000-0'', ''1700000000000-1'',
      ''1700000000000-0'', ''1700000000000-1'', ''1700000000000-2'']"
  by (simp add: two_files_def respond_2_3_def standing_def show_clock eval_batch)

lemma run_two_files_ticking:
  "map (\<lambda>t. (sourceFile t, description t, txn_id t)) (transactions (processStatements respond_2_3 ticking two_files))
   = [(''A.pdf'', ''a1'', ''1700000000000-0''), (''A.pdf'', ''a2'', ''1700000000000-1''),
      (''B.pdf'', ''b1'', ''1700000001000-0''), (''B.pdf'', ''b2'', ''1700000001000-1''),
      (''B.pdf'', ''b3'', ''1700000001000-2'')]"
  by (simp add: two_files_def respond_2_3_def ticking_def show_int_def eval_batch)

lemma run_three_files:
  "processStatements respond_B_fails ticking three_files
   = three_files\<lparr>transactions := [], status := ERROR, error := Some ''quota exceeded'',
       processedCount := 1, currentlyProcessingIdx := None\<rparr>"
  by (simp add: three_files_def respond_B_fails_def eval_batch)

lemma run_two_files_descriptions:
  "map description (transactions (processStatements respond_2_3 ticking two_files))
   = [''a1'', ''a2'', ''b1'', ''b2'', ''b3'']"
  by (simp add: two_files_def respond_2_3_def eval_batch)

lemma run_two_files_ids:
  "map txn_id (transactions (processStatements respond_2_3 ticking two_files))
   = [''1700000000000-0'', ''1700000000000-1'',
      ''1700000001000-0'', ''1700000001000-1'', ''1700000001000-2'']"
  by (simp add: two_files_def respond_2_3_def ticking_def show_int_def eval_batch)

lemmas eval_csv =
  exportToCSV_def currentTransactions_def showing_def initial_state_def csv_header_def
  csv_cells_def replace_quotes_def quoted_def

lemma csv_example_row:
  \<open>exportToCSV (\<lambda>x. ''-4.5'') (showing [coffee])
   = Some (''Date,Description,Amount,Category,Notes,Source'' @ [CHR 0x0A]
           @ ''2024-01-05,"Coffee ""Shop""",-4.5,Dining,"","a.pdf"'')\<close>
  by (simp add: coffee_def eval_csv)

section \<open>The claims\<close>

text \<open>
  C5, as the code has it. For the empty list the summary is \<open>count = 0\<close>, \<open>income = 0\<close>,
  \<open>expenses = 0\<close>, \<open>net = 0\<close>, \<open>categoryData = []\<close>. In general \<open>net\<close> is the rounded sum of two
  rounded sums, the one of the positive amounts and the one of the negative amounts, each
  added from left to right (a zero amount is in neither). When the amounts are whole numbers
  whose magnitudes add up to at most \<open>2^53\<close>, no addition rounds, and \<open>net\<close> is the sum of all the
  amounts.
\<close>

theorem net_of_whole_amounts:
  "summary_of [] = \<lparr>count = 0, income = Fin 0, expenses = Fin 0, net = Fin 0, categoryData = []\<rparr>
   \<and> net (summary_of ts)
       = js_add (foldl js_add (Fin 0) (filter is_pos (map amount ts)))
                (foldl js_add (Fin 0) (filter is_neg (map amount ts)))
   \<and> (map amount ts = map (\<lambda>n. Fin (of_int n)) ns \<and> sum_list (map abs ns) \<le> 2 ^ 53
        \<longrightarrow> net (summary_of ts) = Fin (of_int (sum_list ns)))"
proof -
  have empty: "summary_of [] = \<lparr>count = 0, income = Fin 0, expenses = Fin 0, net = Fin 0, categoryData = []\<rparr>"
    by (simp add: summary_of_def categoryMap_of_def Object_entries_def Array_sort_def fl_zero Let_def)
  have fold: "foldl js_add a (filter P (map amount xs))
              = foldl (\<lambda>acc t. js_add acc (amount t)) a (filter (\<lambda>t. P (amount t)) xs)"
    for a P and xs :: "Transaction list"
    by (induction xs arbitrary: a) simp_all
  have general: "net (summary_of ts)
       = js_add (foldl js_add (Fin 0) (filter is_pos (map amount ts)))
                (foldl js_add (Fin 0) (filter is_neg (map amount ts)))"
    by (simp only: fold) (simp add: summary_of_def Let_def)
  have whole: "net (summary_of ts) = Fin (of_int (sum_list ns))"
    if eq: "map amount ts = map (\<lambda>n. Fin (of_int n)) ns" and le: "sum_list (map abs ns) \<le> 2 ^ 53"
  proof -
    from eq obtain iv where iv: "\<forall>t \<in> set ts. amount t = Fin (of_int (iv t))" "map iv ts = ns"
      by (rule whole_amounts)
    have "sum_list (map (\<lambda>t. \<bar>iv t\<bar>) ts) = sum_list (map abs (map iv ts))"
      by (rule sum_abs_map)
    also have "\<dots> = sum_list (map abs ns)" by (simp only: iv(2))
    finally have "sum_list (map (\<lambda>t. \<bar>iv t\<bar>) ts) \<le> 2 ^ 53" using le by simp
    with iv(1) have "net (summary_of ts) = Fin (of_int (sum_list (map iv ts)))"
      by (rule net_exact)
    then show ?thesis by (simp only: iv(2))
  qed
  show ?thesis
  proof (intro conjI impI)
    show "summary_of [] = \<lparr>count = 0, income = Fin 0, expenses = Fin 0, net = Fin 0, categoryData = []\<rparr>"
      by (rule empty)
    show "net (summary_of ts)
       = js_add (foldl js_add (Fin 0) (filter is_pos (map amount ts)))
                (foldl js_add (Fin 0) (filter is_neg (map amount ts)))"
      by (rule general)
    assume "map amount ts = map (\<lambda>n. Fin (of_int n)) ns \<and> sum_list (map abs ns) \<le> 2 ^ 53"
    then show "net (summary_of ts) = Fin (of_int (sum_list ns))"
      using whole by (elim conjE)
  qed
qed

theorem net_of_whole_amounts_witness:
  "map amount scenario = map (\<lambda>n. Fin (of_int n)) [100, - 40, - 10, - 20]
   \<and> sum_list (map abs [100, - 40, - 10, - 20 :: int]) \<le> 2 ^ 53
   \<and> net (summary_of scenario) = Fin (of_int (sum_list [100, - 40, - 10, - 20]))
   \<and> net (summary_of scenario) = Fin 30"
proof -
  have 1: "map amount scenario = map (\<lambda>n. Fin (of_int n)) [100, - 40, - 10, - 20]"
    by (simp add: scenario_def example_tx_def)
  have 2: "sum_list (map abs [100, - 40, - 10, - 20 :: int]) \<le> 2 ^ 53" by simp
  from 1 2 net_of_whole_amounts [of scenario "[100, - 40, - 10, - 20]"]
  have 3: "net (summary_of scenario) = Fin (of_int (sum_list [100, - 40, - 10, - 20]))"
    by (elim conjE) simp
  then have "net (summary_of scenario) = Fin 30" by simp
  with 1 2 3 show ?thesis by (intro conjI)
qed

text \<open>
  C5, as stated, fails: for the amounts \<open>2^53\<close>, \<open>1\<close>, \<open>-2^53\<close>, \<open>-1\<close>, \<open>-1\<close>, whose sum is \<open>-1\<close>, both
  partial sums are rounded to magnitude \<open>2^53\<close>, and \<open>net\<close> is \<open>0\<close>.
\<close>

theorem net_differs_from_sum:
  "map amount big_amounts = map Fin [9007199254740992, 1, - 9007199254740992, - 1, - 1]
   \<and> sum_list [9007199254740992, 1, - 9007199254740992, - 1, - 1 :: rat] = - 1
   \<and> income (summary_of big_amounts) = Fin 9007199254740992
   \<and> expenses (summary_of big_amounts) = Fin 9007199254740992
   \<and> net (summary_of big_amounts) = Fin 0"
proof -
  have "map amount big_amounts = map Fin [9007199254740992, 1, - 9007199254740992, - 1, - 1]"
    by (simp add: big_amounts_def example_tx_def)
  moreover have "sum_list [9007199254740992, 1, - 9007199254740992, - 1, - 1 :: rat] = - 1"
    by simp
  ultimately show ?thesis using summary_big_amounts by (intro conjI) simp_all
qed







text \<open>
  C1, as the code has it. The color of an entry is the palette color at the position, modulo
  8, that the category of the entry has in the enumeration of the grouping dictionary, not at
  the position of the entry in the sorted list: the entries and the keys of the dictionary
  correspond one to one, and the entry of the \<open>i\<close>-th key has the color \<open>COLORS ! (i mod 8)\<close>.
  When no category is an array index or \<^verbatim>\<open>__proto__\<close>, the keys are enumerated in the order in
  which the categories first occur among the transactions with a negative amount.
\<close>

theorem colors_follow_grouping_order:
  "length (categoryData (summary_of ts)) = length (Object_entries (categoryMap_of ts))
   \<and> distinct (map fst (Object_entries (categoryMap_of ts)))
   \<and> (\<forall>e \<in> set (categoryData (summary_of ts)).
        \<exists>i < length (Object_entries (categoryMap_of ts)).
          cat_name e = fst (Object_entries (categoryMap_of ts) ! i) \<and> color e = COLORS ! (i mod 8))
   \<and> (\<forall>i < length (Object_entries (categoryMap_of ts)).
        \<exists>e \<in> set (categoryData (summary_of ts)).
          cat_name e = fst (Object_entries (categoryMap_of ts) ! i) \<and> color e = COLORS ! (i mod 8))
   \<and> ((\<forall>t \<in> set ts. \<not> is_array_index (category t) \<and> category t \<noteq> ''__proto__'') \<longrightarrow>
        map fst (Object_entries (categoryMap_of ts))
        = rev (remdups (rev (map category (filter (\<lambda>t. is_neg (amount t)) ts)))))"
proof -
  let ?es = "Object_entries (categoryMap_of ts)"
  let ?E = "expenses (summary_of ts)"
  let ?pre = "map (category_entry ?E) (enumerate 0 ?es)"
  have set_cd: "set (categoryData (summary_of ts)) = set ?pre"
    by (simp only: categoryData_summary_of set_Array_sort)
  have len: "length (categoryData (summary_of ts)) = length ?es"
    by (simp add: categoryData_summary_of length_Array_sort)
  have dist: "distinct (map fst ?es)"
    by (simp only: distinct_Object_entries distinct_categoryMap_of)
  have entry: "cat_name (?pre ! i) = fst (?es ! i) \<and> color (?pre ! i) = COLORS ! (i mod 8)"
    if "i < length ?es" for i
    using that by (simp add: nth_enumerate_eq cat_name_category_entry color_category_entry)
  have fwd: "\<exists>i < length ?es. cat_name e = fst (?es ! i) \<and> color e = COLORS ! (i mod 8)"
    if "e \<in> set (categoryData (summary_of ts))" for e
  proof -
    from that set_cd have "e \<in> set ?pre" by simp
    then obtain i where "i < length ?pre" "e = ?pre ! i"
      by (metis in_set_conv_nth)
    with entry [of i] show ?thesis by auto
  qed
  have bwd: "\<exists>e \<in> set (categoryData (summary_of ts)).
               cat_name e = fst (?es ! i) \<and> color e = COLORS ! (i mod 8)"
    if "i < length ?es" for i
  proof -
    from that have "?pre ! i \<in> set ?pre" by simp
    with set_cd entry [OF that] show ?thesis by blast
  qed
  have order: "map fst ?es = rev (remdups (rev (map category (filter (\<lambda>t. is_neg (amount t)) ts))))"
    if plain: "\<forall>t \<in> set ts. \<not> is_array_index (category t) \<and> category t \<noteq> ''__proto__''"
  proof -
    have "\<forall>p \<in> set (categoryMap_of ts). \<not> is_array_index (fst p)"
    proof
      fix p assume "p \<in> set (categoryMap_of ts)"
      then have "fst p \<in> fst ` set (categoryMap_of ts)" by simp
      then have "fst p \<in> category ` {t \<in> set ts. is_neg (amount t) \<and> category t \<noteq> ''__proto__''}"
        by (simp only: keys_categoryMap_of)
      with plain show "\<not> is_array_index (fst p)" by auto
    qed
    then have "?es = categoryMap_of ts" by (rule Object_entries_plain)
    moreover from plain
    have "filter (\<lambda>t. is_neg (amount t) \<and> category t \<noteq> ''__proto__'') ts
          = filter (\<lambda>t. is_neg (amount t)) ts"
      by (auto intro!: filter_cong)
    ultimately show ?thesis by (simp only: keys_categoryMap_of_order)
  qed
  from len dist fwd bwd order show ?thesis by blast
qed

theorem colors_follow_grouping_order_witness:
  "map cat_name (categoryData (summary_of two_expenses)) = [''B'', ''A'']
   \<and> map color (categoryData (summary_of two_expenses)) = [COLORS ! 1, COLORS ! 0]
   \<and> \<not> is_array_index ''A'' \<and> \<not> is_array_index ''B''
   \<and> map fst (Object_entries (categoryMap_of two_expenses)) = [''A'', ''B'']"
proof -
  have plain: "\<forall>t \<in> set two_expenses. \<not> is_array_index (category t) \<and> category t \<noteq> ''__proto__''"
    by (simp add: two_expenses_def example_tx_def is_array_index_def is_digit_def)
  with colors_follow_grouping_order [of two_expenses]
  have "map fst (Object_entries (categoryMap_of two_expenses))
        = rev (remdups (rev (map category (filter (\<lambda>t. is_neg (amount t)) two_expenses))))"
    by blast
  then have "map fst (Object_entries (categoryMap_of two_expenses)) = [''A'', ''B'']"
    by (simp add: two_expenses_def example_tx_def)
  then show ?thesis
    by (simp add: summary_two_expenses COLORS_def is_array_index_def is_digit_def)
qed

text \<open>
  C1, as stated, fails: for an expense of 10 in category A followed by an expense of 20 in
  category B, the sorted list starts with B, whose color is the second of the palette.
\<close>

theorem colors_not_in_output_order:
  "color (categoryData (summary_of two_expenses) ! 0) = ''#f43f5e''
   \<and> COLORS ! (0 mod 8) = ''#4f46e5''
   \<and> \<not> (\<forall>i < length (categoryData (summary_of two_expenses)).
           color (categoryData (summary_of two_expenses) ! i) = COLORS ! (i mod 8))"
proof -
  have len: "0 < length (categoryData (summary_of two_expenses))"
    using summary_two_expenses(3) [THEN arg_cong, of length] by simp
  then have "color (categoryData (summary_of two_expenses) ! 0)
             = map color (categoryData (summary_of two_expenses)) ! 0"
    by simp
  then have first: "color (categoryData (summary_of two_expenses) ! 0) = ''#f43f5e''"
    by (simp add: summary_two_expenses)
  then have "color (categoryData (summary_of two_expenses) ! 0) \<noteq> COLORS ! (0 mod 8)"
    by (simp add: COLORS_def)
  with len have "\<not> (\<forall>i < length (categoryData (summary_of two_expenses)).
           color (categoryData (summary_of two_expenses) ! i) = COLORS ! (i mod 8))"
    by blast
  with first show ?thesis by (simp add: COLORS_def)
qed

text \<open>
  The order of \<open>categoryData\<close>. When no transaction with a negative amount has a category
  that names an inherited method, every value is a number and the list is in descending
  order of value.
\<close>

lemma categoryData_sorted_for_numbers:
  assumes "\<forall>t \<in> set ts. is_neg (amount t) \<longrightarrow> category t \<notin> set inherited_methods"
  shows "sorted_wrt (\<lambda>a b. js_ge (to_number (cat_value a)) (to_number (cat_value b)))
           (categoryData (summary_of ts))"
proof -
  let ?pre = "map (category_entry (expenses (summary_of ts))) (enumerate 0 (Object_entries (categoryMap_of ts)))"
  have "\<forall>e \<in> set ?pre. good (to_number (cat_value e))"
  proof
    fix e assume "e \<in> set ?pre"
    then have "e \<in> set (categoryData (summary_of ts))"
      by (simp only: categoryData_summary_of set_Array_sort)
    then have "(cat_name e, cat_value e) \<in> set (categoryMap_of ts)"
      by (simp add: entry_of_categoryData)
    with categoryMap_of_numbers [OF assms] obtain v where "cat_value e = Num v" "good v"
      by fastforce
    then show "good (to_number (cat_value e))" by simp
  qed
  then have "sorted_wrt (\<lambda>a b. js_ge (to_number (cat_value a)) (to_number (cat_value b)))
               (Array_sort (\<lambda>a b. js_sub (to_number (cat_value b)) (to_number (cat_value a))) ?pre)"
    by (rule sorted_Array_sort_desc)
  then show ?thesis by (simp only: categoryData_summary_of)
qed

text \<open>
  C9. \<open>categoryData\<close> need not be in descending order of value: for an expense of 10 in the
  category \<^verbatim>\<open>constructor\<close> followed by an expense of 30 in the category Food, the bucket of
  \<^verbatim>\<open>constructor\<close> holds a string (the inherited function, as text, followed by \<open>10\<close>), the
  comparator of the sort gives \<^verbatim>\<open>NaN\<close>, the entries stay in the order of the dictionary, and the
  value of the first is not \<^verbatim>\<open>>=\<close> the value of the second.
\<close>

theorem categoryData_unsorted_for_constructor:
  "map category constructor_label = [''constructor'', ''Food'']
   \<and> map amount constructor_label = [Fin (- 10), Fin (- 30)]
   \<and> map cat_name (categoryData (summary_of constructor_label)) = [''constructor'', ''Food'']
   \<and> map cat_value (categoryData (summary_of constructor_label)) = [Str, Num (Fin 30)]
   \<and> \<not> js_ge (to_number Str) (to_number (Num (Fin 30)))"
proof -
  have "map category constructor_label = [''constructor'', ''Food'']"
    and "map amount constructor_label = [Fin (- 10), Fin (- 30)]"
    by (simp_all add: constructor_label_def example_tx_def)
  moreover have "\<not> js_ge (to_number Str) (to_number (Num (Fin 30)))" by simp
  ultimately show ?thesis using summary_constructor_label(1,2) by (intro conjI)
qed

text \<open>
  The names of \<open>categoryData\<close>. They are pairwise distinct, and they are the categories, other
  than \<^verbatim>\<open>__proto__\<close>, of the transactions with a negative amount.
\<close>

lemma category_names_without_proto:
  "distinct (map cat_name (categoryData (summary_of ts)))
   \<and> set (map cat_name (categoryData (summary_of ts)))
       = category ` {t \<in> set ts. is_neg (amount t) \<and> category t \<noteq> ''__proto__''}"
proof
  show "distinct (map cat_name (categoryData (summary_of ts)))"
    by (rule names_of_categoryData(2))
  show "set (map cat_name (categoryData (summary_of ts)))
       = category ` {t \<in> set ts. is_neg (amount t) \<and> category t \<noteq> ''__proto__''}"
    by (simp only: names_of_categoryData(1) keys_categoryMap_of)
qed

text \<open>
  C10. A category of a transaction with a negative amount need not appear in \<open>categoryData\<close>:
  for an expense of 10 in the category \<^verbatim>\<open>__proto__\<close> followed by an expense of 30 in the
  category Food, the assignment to \<^verbatim>\<open>categoryMap["__proto__"]\<close> stores nothing, and the only
  entry is the one of Food, with value 30, while \<open>expenses\<close> is 40.
\<close>

theorem category_proto_has_no_entry:
  "map category proto_label = [''__proto__'', ''Food'']
   \<and> map amount proto_label = [Fin (- 10), Fin (- 30)]
   \<and> is_neg (Fin (- 10))
   \<and> map cat_name (categoryData (summary_of proto_label)) = [''Food'']
   \<and> map cat_value (categoryData (summary_of proto_label)) = [Num (Fin 30)]
   \<and> expenses (summary_of proto_label) = Fin 40"
proof -
  have "map category proto_label = [''__proto__'', ''Food'']"
    and "map amount proto_label = [Fin (- 10), Fin (- 30)]"
    and "is_neg (Fin (- 10))"
    by (simp_all add: proto_label_def example_tx_def)
  then show ?thesis using summary_proto_label(1,2,4) by (intro conjI)
qed

text \<open>
  C4. When the list of files is not empty and every extraction call succeeds, \<open>rs k\<close> being
  the result of the call for file \<open>k\<close>: the consolidated list, without the \<open>sourceFile\<close> tags,
  is the concatenation of the results in the order of the files; the tags are the name of
  file \<open>k\<close> on the records of \<open>rs k\<close>; \<open>processedCount\<close> is the number of files. (With no file,
  \<^verbatim>\<open>processStatements\<close> returns at once and leaves the state as it is.)
\<close>

theorem batch_success:
  assumes "files s \<noteq> []"
    and "\<forall>k < length (files s). extractTransactions (respond k (files s ! k)) (now k) = Inr (rs k)"
  shows "map ExtractedTransaction.truncate (transactions (processStatements respond now s))
           = concat (map rs [0..<length (files s)])
         \<and> map sourceFile (transactions (processStatements respond now s))
           = concat (map (\<lambda>k. replicate (length (rs k)) (name (files s ! k))) [0..<length (files s)])
         \<and> processedCount (processStatements respond now s) = length (files s)
         \<and> status (processStatements respond now s) = SUCCESS
         \<and> currentlyProcessingIdx (processStatements respond now s) = None"
proof -
  let ?n = "length (files s)"
  note run = processStatements_success [of s respond now rs, OF assms]
  have tx: "transactions (processStatements respond now s)
            = concat (map (\<lambda>k. map (tag (name (files s ! k))) (rs k)) [0..<?n])"
    by (simp add: run)
  have "map ExtractedTransaction.truncate (transactions (processStatements respond now s))
        = concat (map (\<lambda>k. map (\<lambda>t. t) (rs k)) [0..<?n])"
    by (simp only: tx map_concat_upt truncate_tag)
  then have 1: "map ExtractedTransaction.truncate (transactions (processStatements respond now s))
        = concat (map rs [0..<?n])"
    by simp
  have "map sourceFile (transactions (processStatements respond now s))
        = concat (map (\<lambda>k. map (\<lambda>t. name (files s ! k)) (rs k)) [0..<?n])"
    by (simp only: tx map_concat_upt sourceFile_tag)
  then have 2: "map sourceFile (transactions (processStatements respond now s))
        = concat (map (\<lambda>k. replicate (length (rs k)) (name (files s ! k))) [0..<?n])"
    by (simp add: map_replicate_const)
  have 3: "processedCount (processStatements respond now s) = ?n"
    "status (processStatements respond now s) = SUCCESS"
    "currentlyProcessingIdx (processStatements respond now s) = None"
    by (simp_all add: run)
  show ?thesis
    by (intro conjI) (rule 1 2 3)+
qed

theorem batch_success_witness:
  "files two_files \<noteq> []
   \<and> length (transactions (processStatements respond_2_3 ticking two_files)) = 5
   \<and> map sourceFile (transactions (processStatements respond_2_3 ticking two_files))
       = [''A.pdf'', ''A.pdf'', ''B.pdf'', ''B.pdf'', ''B.pdf'']
   \<and> map description (transactions (processStatements respond_2_3 ticking two_files))
       = [''a1'', ''a2'', ''b1'', ''b2'', ''b3'']
   \<and> processedCount (processStatements respond_2_3 ticking two_files) = 2"
proof -
  let ?rs = "\<lambda>k. projr (extractTransactions (respond_2_3 k (files two_files ! k)) (ticking k))"
  have ne: "files two_files \<noteq> []"
    by (simp add: two_files_def)
  have ok: "\<forall>k < length (files two_files).
      extractTransactions (respond_2_3 k (files two_files ! k)) (ticking k) = Inr (?rs k)"
    by (simp add: extractTransactions_def respond_2_3_def)
  have len: "map (\<lambda>k. length (?rs k)) [0..<length (files two_files)] = [2, 3]"
    by (simp add: two_files_def respond_2_3_def eval_batch)
  from batch_success [of two_files respond_2_3 ticking ?rs, OF ne ok]
  have src: "map sourceFile (transactions (processStatements respond_2_3 ticking two_files))
        = concat (map (\<lambda>k. replicate (length (?rs k)) (name (files two_files ! k)))
                   [0..<length (files two_files)])"
    and cnt: "processedCount (processStatements respond_2_3 ticking two_files) = length (files two_files)"
    by blast+
  have "concat (map (\<lambda>k. replicate (length (?rs k)) (name (files two_files ! k)))
                   [0..<length (files two_files)])
        = [''A.pdf'', ''A.pdf'', ''B.pdf'', ''B.pdf'', ''B.pdf'']"
    by (simp add: two_files_def respond_2_3_def eval_batch)
  with src have tags: "map sourceFile (transactions (processStatements respond_2_3 ticking two_files))
        = [''A.pdf'', ''A.pdf'', ''B.pdf'', ''B.pdf'', ''B.pdf'']"
    by simp
  then have "length (map sourceFile (transactions (processStatements respond_2_3 ticking two_files))) = 5"
    by simp
  then have five: "length (transactions (processStatements respond_2_3 ticking two_files)) = 5"
    by simp
  have descr: "map description (transactions (processStatements respond_2_3 ticking two_files))
       = [''a1'', ''a2'', ''b1'', ''b2'', ''b3'']"
    by (rule run_two_files_descriptions)
  from cnt have two: "processedCount (processStatements respond_2_3 ticking two_files) = 2"
    by (simp add: two_files_def)
  show ?thesis
    by (intro conjI) (rule ne five tags descr two)+
qed

text \<open>
  C2. When the extraction call fails for some file, with \<open>j\<close> the first such file and \<open>err\<close> what
  its call throws: the state after the run is the state before it with no transaction,
  status \<open>ERROR\<close>, the message of \<open>err\<close> (or the default text) as the error, no file in
  progress, and \<open>processedCount = j\<close>. Nothing of the files before \<open>j\<close> is kept and the outcome
  does not depend on the files after \<open>j\<close>.
\<close>

theorem batch_failure:
  assumes "\<exists>k < length (files s). \<exists>e. extractTransactions (respond k (files s ! k)) (now k) = Inl e"
  shows "\<exists>j < length (files s). \<exists>err.
           extractTransactions (respond j (files s ! j)) (now j) = Inl err
           \<and> (\<forall>k < j. \<exists>r. extractTransactions (respond k (files s ! k)) (now k) = Inr r)
           \<and> processStatements respond now s
               = s\<lparr>transactions := [], status := ERROR, error := Some (error_text err),
                    processedCount := j, currentlyProcessingIdx := None\<rparr>
           \<and> transactions (processStatements respond now s) = []
           \<and> currentlyProcessingIdx (processStatements respond now s) = None
           \<and> status (processStatements respond now s) = ERROR
           \<and> error (processStatements respond now s) = Some (error_text err)
           \<and> processedCount (processStatements respond now s) = j"
proof -
  let ?call = "\<lambda>k. extractTransactions (respond k (files s ! k)) (now k)"
  from assms obtain k where "k < length (files s)" "isl (?call k)"
    by auto
  then obtain j where j: "j < length (files s)" "isl (?call j)" "\<forall>i < j. \<not> isl (?call i)"
    by (rule first_failure)
  from j(2) obtain err where err: "?call j = Inl err"
    by (auto simp: isl_def)
  from j(3) have before: "\<forall>i < j. ?call i = Inr (projr (?call i))"
    by simp
  have eq: "processStatements respond now s
          = s\<lparr>transactions := [], status := ERROR, error := Some (error_text err),
               processedCount := j, currentlyProcessingIdx := None\<rparr>"
    using j(1) err before by (rule processStatements_failure)
  have ok: "\<forall>k < j. \<exists>r. ?call k = Inr r"
  proof (intro allI impI)
    fix k assume "k < j"
    with before have "?call k = Inr (projr (?call k))" by simp
    then show "\<exists>r. ?call k = Inr r" ..
  qed
  have fields: "transactions (processStatements respond now s) = []"
    "currentlyProcessingIdx (processStatements respond now s) = None"
    "status (processStatements respond now s) = ERROR"
    "error (processStatements respond now s) = Some (error_text err)"
    "processedCount (processStatements respond now s) = j"
    by (simp_all add: eq)
  have "extractTransactions (respond j (files s ! j)) (now j) = Inl err
           \<and> (\<forall>k < j. \<exists>r. extractTransactions (respond k (files s ! k)) (now k) = Inr r)
           \<and> processStatements respond now s
               = s\<lparr>transactions := [], status := ERROR, error := Some (error_text err),
                    processedCount := j, currentlyProcessingIdx := None\<rparr>
           \<and> transactions (processStatements respond now s) = []
           \<and> currentlyProcessingIdx (processStatements respond now s) = None
           \<and> status (processStatements respond now s) = ERROR
           \<and> error (processStatements respond now s) = Some (error_text err)
           \<and> processedCount (processStatements respond now s) = j"
    by (intro conjI) (rule err ok eq fields)+
  then have "\<exists>err. extractTransactions (respond j (files s ! j)) (now j) = Inl err
           \<and> (\<forall>k < j. \<exists>r. extractTransactions (respond k (files s ! k)) (now k) = Inr r)
           \<and> processStatements respond now s
               = s\<lparr>transactions := [], status := ERROR, error := Some (error_text err),
                    processedCount := j, currentlyProcessingIdx := None\<rparr>
           \<and> transactions (processStatements respond now s) = []
           \<and> currentlyProcessingIdx (processStatements respond now s) = None
           \<and> status (processStatements respond now s) = ERROR
           \<and> error (processStatements respond now s) = Some (error_text err)
           \<and> processedCount (processStatements respond now s) = j" ..
  with j(1) show ?thesis by (intro exI [of _ j] conjI)
qed

theorem batch_failure_witness:
  "(\<exists>k < length (files three_files).
      \<exists>e. extractTransactions (respond_B_fails k (files three_files ! k)) (ticking k) = Inl e)
   \<and> transactions (processStatements respond_B_fails ticking three_files) = []
   \<and> currentlyProcessingIdx (processStatements respond_B_fails ticking three_files) = None
   \<and> status (processStatements respond_B_fails ticking three_files) = ERROR
   \<and> error (processStatements respond_B_fails ticking three_files) = Some ''quota exceeded''
   \<and> processedCount (processStatements respond_B_fails ticking three_files) = 1"
proof -
  have "1 < length (files three_files)
        \<and> extractTransactions (respond_B_fails 1 (files three_files ! 1)) (ticking 1)
            = Inl (Thrown (Some ''quota exceeded''))"
    by (simp add: three_files_def respond_B_fails_def eval_batch)
  then have fails: "\<exists>k < length (files three_files).
      \<exists>e. extractTransactions (respond_B_fails k (files three_files ! k)) (ticking k) = Inl e"
    by blast
  from batch_failure [of three_files respond_B_fails ticking, OF fails]
  have "transactions (processStatements respond_B_fails ticking three_files) = []"
    "currentlyProcessingIdx (processStatements respond_B_fails ticking three_files) = None"
    "status (processStatements respond_B_fails ticking three_files) = ERROR"
    by blast+
  moreover have "error (processStatements respond_B_fails ticking three_files) = Some ''quota exceeded''"
    "processedCount (processStatements respond_B_fails ticking three_files) = 1"
    by (simp_all add: run_three_files)
  ultimately show ?thesis using fails by blast
qed

text \<open>
  When the ids of a run are distinct. After a run in which every call succeeds (\<open>raws k\<close>
  being what the model returns for file \<open>k\<close>), the ids of the consolidated list are pairwise
  distinct exactly when no two files have the same reading of the clock at a position that
  both results have. The ids of one file are always distinct.
\<close>

lemma ids_distinct_iff_clock:
  assumes "files s \<noteq> []"
    and "\<forall>k < length (files s). respond k (files s ! k) = Parsed (raws k)"
  shows "distinct (map txn_id (transactions (processStatements respond now s)))
         \<longleftrightarrow> (\<forall>k < length (files s). \<forall>k' < length (files s). \<forall>i.
                k \<noteq> k' \<and> i < length (raws k) \<and> i < length (raws k') \<longrightarrow> now k i \<noteq> now k' i)"
proof -
  let ?n = "length (files s)"
  let ?len = "\<lambda>k. length (raws k)"
  let ?rs = "\<lambda>k. projr (extractTransactions (Parsed (raws k)) (now k))"
  have call: "\<forall>k < ?n. extractTransactions (respond k (files s ! k)) (now k) = Inr (?rs k)"
    using assms(2) by (simp add: extractTransactions_def)
  have tx: "transactions (processStatements respond now s)
            = concat (map (\<lambda>k. map (tag (name (files s ! k))) (?rs k)) [0..<?n])"
    by (simp add: processStatements_success [of s respond now ?rs, OF assms(1) call])
  have "\<forall>k < ?n. map txn_id (?rs k) = map (\<lambda>i. show_int (now k i) @ ''-'' @ digits i) [0..<?len k]"
    by (intro allI impI ids_of_extraction) (simp add: extractTransactions_def)
  then have "map txn_id (transactions (processStatements respond now s))
             = map (\<lambda>(k, i). show_int (now k i) @ ''-'' @ digits i) (positions ?len ?n)"
    unfolding tx by (rule ids_of_batch)
  then have "distinct (map txn_id (transactions (processStatements respond now s)))
             \<longleftrightarrow> inj_on (\<lambda>(k, i). show_int (now k i) @ ''-'' @ digits i) {(k, i). k < ?n \<and> i < ?len k}"
    by (simp only: distinct_map distinct_positions set_positions simp_thms)
  then show ?thesis
    by (simp only: inj_on_ids)
qed

lemma ids_distinct_with_ticking_clock:
  "files two_files \<noteq> []
   \<and> distinct (map txn_id (transactions (processStatements respond_2_3 ticking two_files)))
   \<and> map txn_id (transactions (processStatements respond_2_3 ticking two_files))
      = [''1700000000000-0'', ''1700000000000-1'',
         ''1700000001000-0'', ''1700000001000-1'', ''1700000001000-2'']"
proof -
  let ?raws = "\<lambda>k::nat. if k = 0 then [example_raw ''a1'', example_raw ''a2'']
                         else [example_raw ''b1'', example_raw ''b2'', example_raw ''b3'']"
  have ne: "files two_files \<noteq> []"
    by (simp add: two_files_def)
  have parsed: "\<forall>k < length (files two_files). respond_2_3 k (files two_files ! k) = Parsed (?raws k)"
    by (simp add: two_files_def initial_state_def respond_2_3_def example_file_def less_Suc_eq)
  have clock: "\<forall>k < length (files two_files). \<forall>k' < length (files two_files). \<forall>i.
      k \<noteq> k' \<and> i < length (?raws k) \<and> i < length (?raws k') \<longrightarrow> ticking k i \<noteq> ticking k' i"
    by (simp add: ticking_def)
  from ids_distinct_iff_clock [of two_files respond_2_3 ?raws ticking, OF ne parsed] clock
  have "distinct (map txn_id (transactions (processStatements respond_2_3 ticking two_files)))"
    by blast
  moreover have "map txn_id (transactions (processStatements respond_2_3 ticking two_files))
      = [''1700000000000-0'', ''1700000000000-1'',
         ''1700000001000-0'', ''1700000001000-1'', ''1700000001000-2'']"
    by (rule run_two_files_ids)
  ultimately show ?thesis using ne by blast
qed

text \<open>
  C8. The ids of the consolidated list need not be pairwise distinct: the id is the reading
  of the clock and the index of the record within the result of its own file, so when the
  clock reads the same millisecond during the calls for two files, the first records of the
  two results get the same id. Here two files yield two and three records while the clock
  stands.
\<close>

theorem ids_collide_when_clock_stands:
  "map txn_id (transactions (processStatements respond_2_3 standing two_files))
     = [''1700000000000-0'', ''1700000000000-1'',
        ''1700000000000-0'', ''1700000000000-1'', ''1700000000000-2'']
   \<and> \<not> distinct (map txn_id (transactions (processStatements respond_2_3 standing two_files)))"
  by (simp add: run_two_files_standing)

text \<open>
  C3. The export writes the header and one row per transaction in scope, in list order, with
  the amount as a bare number, and \<^verbatim>\<open>description\<close> and \<^verbatim>\<open>notes\<close> in quotes with their quotes
  doubled (\<open>csv_rows\<close>); the row of the scenario is the one the specification gives
  (\<open>csv_example_row\<close>). The other string cells are not escaped: for a transaction whose
  category is \<^verbatim>\<open>Food "out"\<close> and whose file is \<^verbatim>\<open>scan "1".pdf\<close>, the category cell is the bare
  label and the source cell is the name between quotes, its own quotes not doubled.
\<close>

theorem csv_export_unescaped_cells:
  \<open>exportToCSV (\<lambda>x. ''-4.5'') (showing [takeaway])
     = Some (''Date,Description,Amount,Category,Notes,Source'' @ [CHR 0x0A]
             @ ''2024-01-05,"Coffee ""Shop""",-4.5,Food "out","","scan "1".pdf"'')
   \<and> csv_cells (\<lambda>x. ''-4.5'') takeaway ! 3 = ''Food "out"''
   \<and> quoted (replace_quotes (category takeaway)) = ''"Food ""out"""''
   \<and> csv_cells (\<lambda>x. ''-4.5'') takeaway ! 5 = ''"scan "1".pdf"''
   \<and> quoted (replace_quotes (sourceFile takeaway)) = ''"scan ""1"".pdf"''\<close>
  by (simp add: takeaway_def eval_csv)

end
